theory Spec2Isabelle
  imports Main "HOL-Library.Sublist" "HOL-Library.Log_Nat"
begin

section \<open>Python values used by the scripts\<close>

text \<open>
  Python strings are sequences of code points. They are modelled as \<open>string\<close>, whose
  characters are the 256 code points U+0000 to U+00FF; the string methods below are the
  Python ones restricted to that range. Exceptions are values of \<open>error\<close>; a function that
  can raise returns \<open>error + 'a\<close> with \<open>Inl\<close> for the exception.
\<close>

datatype error =
    AttributeError string string  \<comment> \<open>type of the object, missing attribute\<close>
  | TypeError
  | IndexError
  | ZeroDivisionError
  | OverflowError

subsection \<open>Character classes\<close>

definition code_point :: "char \<Rightarrow> nat" where
  "code_point c = of_char c"

definition isspace :: "char \<Rightarrow> bool" where
  \<comment> \<open>\<open>str.isspace\<close> on one character: TAB..CR, FS..US, space, NEL, NBSP\<close>
  "isspace c = (let n = code_point c in
     (9 \<le> n \<and> n \<le> 13) \<or> (28 \<le> n \<and> n \<le> 32) \<or> n = 133 \<or> n = 160)"

definition is_decimal :: "char \<Rightarrow> bool" where
  \<comment> \<open>what the regular expression \<open>\d\<close> matches: the decimal digits 0..9\<close>
  "is_decimal c = (let n = code_point c in 48 \<le> n \<and> n \<le> 57)"

definition isdigit_char :: "char \<Rightarrow> bool" where
  \<comment> \<open>\<open>str.isdigit\<close> on one character: 0..9 and the superscripts two, three, one\<close>
  "isdigit_char c = (let n = code_point c in
     (48 \<le> n \<and> n \<le> 57) \<or> n = 178 \<or> n = 179 \<or> n = 185)"

definition isupper_char :: "char \<Rightarrow> bool" where
  \<comment> \<open>the characters \<open>str.lower\<close> changes: A..Z and U+00C0..U+00DE without U+00D7\<close>
  "isupper_char c = (let n = code_point c in
     (65 \<le> n \<and> n \<le> 90) \<or> (192 \<le> n \<and> n \<le> 222 \<and> n \<noteq> 215))"

definition lower_char :: "char \<Rightarrow> char" where
  \<comment> \<open>the lower-case letter is 32 code points up: bit 5, clear in every upper-case
      letter of the range, is set\<close>
  "lower_char c = (if isupper_char c
     then Char (digit0 c) (digit1 c) (digit2 c) (digit3 c) (digit4 c) True (digit6 c) (digit7 c)
     else c)"

subsection \<open>String methods\<close>

definition lower :: "string \<Rightarrow> string" where
  "lower s = map lower_char s"

definition strip :: "string \<Rightarrow> string" where
  "strip s = rev (dropWhile isspace (rev (dropWhile isspace s)))"

fun split_from :: "string \<Rightarrow> string \<Rightarrow> string list" where
  \<comment> \<open>scan with the word being read in \<open>cur\<close>; runs of whitespace separate words\<close>
  "split_from [] cur = (if cur = [] then [] else [cur])"
| "split_from (c # cs) cur =
     (if isspace c then (if cur = [] then split_from cs [] else cur # split_from cs [])
      else split_from cs (cur @ [c]))"

definition split :: "string \<Rightarrow> string list" where
  \<comment> \<open>\<open>s.split()\<close>\<close>
  "split s = split_from s []"

definition split_sep1 :: "char \<Rightarrow> string \<Rightarrow> string list" where
  \<comment> \<open>\<open>s.split(sep, 1)\<close> for a one-character separator: at most one split, at the first
      occurrence; empty pieces are kept\<close>
  "split_sep1 sep s =
     (case dropWhile (\<lambda>c. c \<noteq> sep) s of
        [] \<Rightarrow> [s]
      | _ # after \<Rightarrow> [takeWhile (\<lambda>c. c \<noteq> sep) s, after])"

fun join :: "string \<Rightarrow> string list \<Rightarrow> string" where
  \<comment> \<open>\<open>sep.join(xs)\<close>\<close>
  "join sep [] = []"
| "join sep [x] = x"
| "join sep (x # y # ys) = x @ sep @ join sep (y # ys)"

definition find :: "string \<Rightarrow> string \<Rightarrow> nat \<Rightarrow> int" where
  \<comment> \<open>\<open>s.find(sub, start)\<close>: the lowest index from \<open>start\<close> on at which \<open>sub\<close> occurs
      in \<open>s\<close>, or -1\<close>
  "find s sub start =
     (case filter (\<lambda>k. take (length sub) (drop k s) = sub) [start ..< Suc (length s)] of
        [] \<Rightarrow> - 1
      | k # _ \<Rightarrow> int k)"

definition isdigit :: "string \<Rightarrow> bool" where
  \<comment> \<open>\<open>s.isdigit()\<close>: non-empty and every character a digit\<close>
  "isdigit s = (s \<noteq> [] \<and> list_all isdigit_char s)"

definition search_digit :: "string \<Rightarrow> bool" where
  \<comment> \<open>\<open>bool(re.search(r"\d", s))\<close>\<close>
  "search_digit s = list_ex is_decimal s"

definition remove_mark :: "char \<Rightarrow> string \<Rightarrow> string" where
  \<comment> \<open>\<open>s.replace(mark, "")\<close> for a one-character \<open>mark\<close>\<close>
  "remove_mark mark s = filter (\<lambda>c. c \<noteq> mark) s"

fun universal_newlines :: "string \<Rightarrow> string" where
  \<comment> \<open>what a file opened for reading in text mode delivers: the line endings CR LF and
      a lone CR are read as LF\<close>
  "universal_newlines [] = []"
| "universal_newlines [c] = (if c = CHR 0x0D then [CHR 0x0A] else [c])"
| "universal_newlines (c # d # cs) =
     (if c = CHR 0x0D
      then (if d = CHR 0x0A then CHR 0x0A # universal_newlines cs
            else CHR 0x0A # universal_newlines (d # cs))
      else c # universal_newlines (d # cs))"

definition keepends :: "string \<Rightarrow> string list" where
  \<comment> \<open>the lines of a text: each line keeps its LF, a last line without one is kept too\<close>
  "keepends s = foldr (\<lambda>c ls. if c = CHR 0x0A then [c] # ls
                               else (case ls of [] \<Rightarrow> [[c]] | l # ls' \<Rightarrow> (c # l) # ls')) s []"

definition readlines :: "string \<Rightarrow> string list" where
  \<comment> \<open>\<open>file.readlines()\<close> on the decoded content of a file opened with \<open>open(name, "r")\<close>\<close>
  "readlines content = keepends (universal_newlines content)"

definition sort_reverse :: "('a \<Rightarrow> nat) \<Rightarrow> 'a list \<Rightarrow> 'a list" where
  \<comment> \<open>\<open>xs.sort(key=key, reverse=True)\<close>: the list is reversed, sorted stably in
      ascending order and reversed again, so equal keys keep their original order\<close>
  "sort_reverse key xs = rev (sort_key key (rev xs))"

section \<open>The dictionary builder: \<open>make_prn_dict.py\<close>\<close>

text \<open>
  File names stand for the files: \<open>input_file\<close> and \<open>config_file\<close> are the decoded
  contents of the files as stored, before the newline translation that reading in text
  mode applies, and the output file is the list of strings written to it, in order.
\<close>

type_synonym sound_mapping = "string \<times> string"

definition parse_input :: "string \<Rightarrow> string list" where
  "parse_input input_file =
     filter (\<lambda>token. 0 < length token) (map strip (readlines input_file))"

fun parse_configs_loop :: "string list \<Rightarrow> sound_mapping list \<Rightarrow> error + sound_mapping list" where
  "parse_configs_loop [] sound_mappings = Inr sound_mappings"
| "parse_configs_loop (line # rest) sound_mappings =
     (case line of
        [] \<Rightarrow> Inl IndexError
      | c # _ \<Rightarrow>
          if c = CHR ''#'' then parse_configs_loop rest sound_mappings
          else
            let mapping = filter (\<lambda>s. s \<noteq> []) (split_sep1 (CHR '' '') (strip line))
            in if 1 < length mapping
               then parse_configs_loop rest (sound_mappings @ [(mapping ! 0, mapping ! 1)])
               else parse_configs_loop rest sound_mappings)"

definition parse_configs :: "string \<Rightarrow> error + sound_mapping list" where
  "parse_configs config_file =
     (case parse_configs_loop (readlines config_file) [] of
        Inl e \<Rightarrow> Inl e
      | Inr sound_mappings \<Rightarrow> Inr (sort_reverse (\<lambda>x. length (fst x)) sound_mappings))"

text \<open>
  \<open>oov_characters\<close> is initialised with \<open>{}\<close>, which in Python is an empty dict, not a set
  (the annotation \<open>set\<close> is not enforced). A dict has no attribute \<open>add\<close>, so the call
  \<open>oov_characters.add(...)\<close> raises AttributeError.
\<close>

type_synonym py_dict = "(string \<times> string) list"

definition dict_add :: "py_dict \<Rightarrow> string \<Rightarrow> error + py_dict" where
  "dict_add d x = Inl (AttributeError ''dict'' ''add'')"

fun for_maps :: "sound_mapping list \<Rightarrow> string \<Rightarrow> bool \<times> string list \<times> nat
                   \<Rightarrow> bool \<times> string list \<times> nat" where
  \<comment> \<open>the loop over \<open>sound_mappings\<close>, left by \<open>break\<close> at the first match\<close>
  "for_maps [] token_lower (found, res, current_index) = (found, res, current_index)"
| "for_maps (maps # rest) token_lower (found, res, current_index) =
     (if find token_lower (fst maps) current_index = int current_index
      then (True, res @ [snd maps], current_index + length (fst maps))
      else for_maps rest token_lower (found, res, current_index))"

definition while_body :: "sound_mapping list \<Rightarrow> string \<Rightarrow> nat \<times> string list \<times> py_dict
                            \<Rightarrow> error + nat \<times> string list \<times> py_dict" where
  \<comment> \<open>one iteration of the loop over the positions of \<open>token_lower\<close>\<close>
  "while_body sound_mappings token_lower st =
     (case st of (current_index, res, oov_characters) \<Rightarrow>
        (case for_maps sound_mappings token_lower (False, res, current_index) of
           (found, res, current_index) \<Rightarrow>
             if \<not> found then
               (if current_index < length token_lower
                then (case dict_add oov_characters [token_lower ! current_index] of
                        Inl e \<Rightarrow> Inl e
                      | Inr oov_characters \<Rightarrow>
                          Inr (current_index + 1,
                               res @ [''('' @ [token_lower ! current_index] @ '')''],
                               oov_characters))
                else Inl IndexError)
             else Inr (current_index, res, oov_characters)))"

partial_function (option) while_loop :: "sound_mapping list \<Rightarrow> string \<Rightarrow> nat \<times> string list \<times> py_dict
                            \<Rightarrow> (error + string list \<times> py_dict) option" where
  "while_loop sound_mappings token_lower st =
     (if fst st < length token_lower
      then (case while_body sound_mappings token_lower st of
              Inl e \<Rightarrow> Some (Inl e)
            | Inr st' \<Rightarrow> while_loop sound_mappings token_lower st')
      else Some (Inr (snd st)))"

declare while_loop.simps [code]

record run =
  output_file :: "string list"
  oov_characters :: py_dict
  stderr :: "string list"

fun for_tokens :: "sound_mapping list \<Rightarrow> string list \<Rightarrow> run \<Rightarrow> ((error + unit) \<times> run) option" where
  "for_tokens sound_mappings [] st = Some (Inr (), st)"
| "for_tokens sound_mappings (token # rest) st =
     (case while_loop sound_mappings (lower token) (0, [token], oov_characters st) of
        None \<Rightarrow> None
      | Some (Inl e) \<Rightarrow> Some (Inl e, st)
      | Some (Inr (res, oov)) \<Rightarrow>
          for_tokens sound_mappings rest
            (st\<lparr>output_file := output_file st @ [join '' '' res @ [CHR 0x0A]],
                oov_characters := oov\<rparr>))"

definition generate_dictionary :: "string \<Rightarrow> string \<Rightarrow> ((error + unit) \<times> run) option" where
  \<comment> \<open>\<open>None\<close>: the run does not return\<close>
  "generate_dictionary input_file config_file =
     (let input_tokens = parse_input input_file;
          st = \<lparr>output_file = [], oov_characters = [], stderr = []\<rparr>
      in case parse_configs config_file of
           Inl e \<Rightarrow> Some (Inl e, st)
         | Inr sound_mappings \<Rightarrow>
             (case for_tokens sound_mappings input_tokens
                     (st\<lparr>output_file := [''!SIL sil'' @ [CHR 0x0A], ''<UNK> spn'' @ [CHR 0x0A]]\<rparr>) of
                None \<Rightarrow> None
              | Some (Inl e, st') \<Rightarrow> Some (Inl e, st')
              | Some (Inr u, st') \<Rightarrow>
                  Some (Inr u, st'\<lparr>stderr := map (\<lambda>character. ''Unexpected character: '' @ fst character)
                                                 (oov_characters st')\<rparr>)))"

section \<open>The transcript cleaner: \<open>clean_json.py\<close>\<close>

subsection \<open>True division of integers\<close>

text \<open>
  \<open>a / b\<close> on Python integers is the quotient correctly rounded to a binary64 float
  (round half to even, 53 significant bits, exponents from -1022 with gradual underflow);
  it raises ZeroDivisionError for \<open>b = 0\<close> and OverflowError when the rounded quotient
  is beyond the largest float. A float is represented by the rational number it denotes.
\<close>

definition pow2 :: "int \<Rightarrow> rat" where
  "pow2 e = (if 0 \<le> e then 2 ^ nat e else 1 / 2 ^ nat (- e))"

definition scaled :: "int \<Rightarrow> int \<Rightarrow> int \<Rightarrow> int \<times> int" where
  \<comment> \<open>numerator and denominator of \<open>a / b * 2 ^ j\<close>\<close>
  "scaled a b j = (if 0 \<le> j then (a * 2 ^ nat j, b) else (a, b * 2 ^ nat (- j)))"

definition floor_log2 :: "int \<Rightarrow> int \<Rightarrow> int" where
  \<comment> \<open>the exponent \<open>e\<close> with \<open>2 ^ e \<le> a / b < 2 ^ (e + 1)\<close>, for positive \<open>a\<close> and \<open>b\<close>\<close>
  "floor_log2 a b =
     (let k = bitlen a - bitlen b
      in case scaled a b (- k) of (n, d) \<Rightarrow> if d \<le> n then k else k - 1)"

definition round_half_even :: "int \<Rightarrow> int \<Rightarrow> int" where
  \<comment> \<open>\<open>n / d\<close> rounded to the nearest integer, a tie to the even one; \<open>d\<close> positive\<close>
  "round_half_even n d =
     (let f = n div d; r = n mod d
      in if 2 * r < d then f
         else if d < 2 * r then f + 1
         else if even f then f else f + 1)"

definition exponent :: "int \<Rightarrow> int \<Rightarrow> int" where
  \<comment> \<open>the exponent of the float nearest to \<open>a / b\<close>, for positive \<open>a\<close> and \<open>b\<close>; quotients
      below \<open>2 ^ - 1022\<close> are subnormal and share the least exponent\<close>
  "exponent a b = max (floor_log2 a b) (- 1022)"

definition significand :: "int \<Rightarrow> int \<Rightarrow> int" where
  \<comment> \<open>\<open>a / b\<close> in units of the last place, \<open>2 ^ (exponent a b - 52)\<close>, rounded\<close>
  "significand a b =
     (case scaled a b (52 - exponent a b) of (n, d) \<Rightarrow> round_half_even n d)"

definition true_div :: "int \<Rightarrow> int \<Rightarrow> error + rat" where
  "true_div a b =
     (if b = 0 then Inl ZeroDivisionError
      else if a = 0 then Inr 0
      else
        let m = significand \<bar>a\<bar> \<bar>b\<bar>; e = exponent \<bar>a\<bar> \<bar>b\<bar>
        in if pow2 1024 \<le> of_int m * pow2 (e - 52) then Inl OverflowError
           else Inr (of_int (sgn a * sgn b * m) * pow2 (e - 52)))"

definition float_0_1 :: rat where
  \<comment> \<open>the literal \<open>0.1\<close>: the float nearest to one tenth\<close>
  "float_0_1 = 3602879701896397 / 36028797018963968"

definition float_0_5 :: rat where
  \<comment> \<open>the literal \<open>0.5\<close>\<close>
  "float_0_5 = 1 / 2"

subsection \<open>Utterances\<close>

text \<open>
  An utterance is a dict from keys to JSON values. The records of a batch are objects that
  the cleaner mutates in place, so a batch is a list of addresses into a heap of dicts.
\<close>

datatype json = Str string | Num int | Null

type_synonym utterance = "string \<rightharpoonup> json"

type_synonym addr = nat

subsection \<open>\<open>clean_utterance\<close>\<close>

definition translation_tags :: "string set" where
  "translation_tags = {''@eng@'', ''<ind:'', ''<eng:''}"

definition in_special_cases :: "string list option \<Rightarrow> string \<Rightarrow> bool" where
  \<comment> \<open>\<open>special_cases and word in special_cases\<close>\<close>
  "in_special_cases special_cases word =
     (case special_cases of None \<Rightarrow> False | Some cases \<Rightarrow> cases \<noteq> [] \<and> word \<in> set cases)"

definition remove_punctuation :: "string option \<Rightarrow> string \<Rightarrow> string" where
  \<comment> \<open>\<open>if punctuation: for mark in punctuation: word = word.replace(mark, "")\<close>\<close>
  "remove_punctuation punctuation word =
     (case punctuation of
        None \<Rightarrow> word
      | Some marks \<Rightarrow> foldl (\<lambda>word mark. remove_mark mark word) word marks)"

fun for_words :: "string list \<Rightarrow> bool \<Rightarrow> string set option \<Rightarrow> string option \<Rightarrow> string list option
                    \<Rightarrow> string list \<times> int \<Rightarrow> error + string list \<times> int" where
  "for_words [] remove_english english_words punctuation special_cases (clean_words, english_word_count) =
     Inr (clean_words, english_word_count)"
| "for_words (word # rest) remove_english english_words punctuation special_cases
       (clean_words, english_word_count) =
     (if in_special_cases special_cases word
      then for_words rest remove_english english_words punctuation special_cases
             (clean_words, english_word_count)
      else if word \<in> translation_tags then Inr ([], 0)
      else if search_digit word \<and> \<not> isdigit word then Inr ([], 0)
      else
        let word = remove_punctuation punctuation word
        in if remove_english \<and> 3 < length word
           then (case english_words of
                   None \<Rightarrow> Inl TypeError
                 | Some corpus \<Rightarrow>
                     if word \<in> corpus
                     then for_words rest remove_english english_words punctuation special_cases
                            (clean_words, english_word_count + 1)
                     else for_words rest remove_english english_words punctuation special_cases
                            (clean_words @ [word], english_word_count))
           else for_words rest remove_english english_words punctuation special_cases
                  (clean_words @ [word], english_word_count))"

definition clean_utterance :: "utterance \<Rightarrow> bool \<Rightarrow> string set option \<Rightarrow> string option
                                 \<Rightarrow> string list option \<Rightarrow> error + string list \<times> int" where
  "clean_utterance utterance remove_english english_words punctuation special_cases =
     (case utterance ''transcript'' of
        None \<Rightarrow> Inl (AttributeError ''NoneType'' ''lower'')
      | Some Null \<Rightarrow> Inl (AttributeError ''NoneType'' ''lower'')
      | Some (Num n) \<Rightarrow> Inl (AttributeError ''int'' ''lower'')
      | Some (Str transcript) \<Rightarrow>
          for_words (split (lower transcript)) remove_english english_words punctuation
            special_cases ([], 0))"

subsection \<open>\<open>is_valid_utterance\<close>\<close>

text \<open>
  The language identifier is an object of the \<open>langid\<close> library; it is represented by its
  \<open>classify\<close> method, a function from a text to a language code and a probability. The
  calls into the external libraries are recorded as events.
\<close>

type_synonym language_identifier = "string \<Rightarrow> string \<times> rat"

datatype event = Get_english_words | From_modelstring | Classify string

definition is_valid_utterance :: "string list \<Rightarrow> int \<Rightarrow> bool \<Rightarrow> bool \<Rightarrow> language_identifier option
                                    \<Rightarrow> (error + bool) \<times> event list" where
  \<comment> \<open>the result, and the external calls made\<close>
  "is_valid_utterance clean_words english_word_count remove_english use_langid langid_identifier =
     (let cleaned_transcription = strip (join '' '' clean_words)
      in if cleaned_transcription = [] then (Inr False, [])
         else
           case (if remove_english \<and> 0 < length clean_words
                 then (case true_div english_word_count (int (length clean_words)) of
                         Inl e \<Rightarrow> Inl e
                       | Inr ratio \<Rightarrow> Inr (float_0_1 < ratio))
                 else Inr False) of
             Inl e \<Rightarrow> (Inl e, [])
           | Inr True \<Rightarrow> (Inr False, [])
           | Inr False \<Rightarrow>
               if remove_english \<and> use_langid
               then (case langid_identifier of
                       None \<Rightarrow> (Inl (AttributeError ''NoneType'' ''classify''), [])
                     | Some classify \<Rightarrow>
                         (case classify cleaned_transcription of
                            (lang, prob) \<Rightarrow>
                              if lang = ''en'' \<and> float_0_5 < prob
                              then (Inr False, [Classify cleaned_transcription])
                              else (Inr True, [Classify cleaned_transcription])))
               else (Inr True, []))"

subsection \<open>\<open>clean_json_data\<close>\<close>

record env =
  nltk_words :: "string set"  \<comment> \<open>what \<open>get_english_words()\<close> returns\<close>
  langid_model :: language_identifier
     \<comment> \<open>what \<open>LanguageIdentifier.from_modelstring(model, norm_probs=True)\<close> returns\<close>

record world =
  heap :: "addr \<Rightarrow> utterance"
  events :: "event list"

definition string_punctuation :: string where
  \<comment> \<open>\<open>string.punctuation\<close>\<close>
  "string_punctuation =
     ''!'' @ [CHR 0x22] @ ''#$%&'' @ [CHR 0x27] @ ''()*+,-./:;<=>?@['' @ [CHR 0x5C] @ '']^_''
       @ [CHR 0x60] @ ''{|}~''"

definition punctuation_to_remove :: string where
  \<comment> \<open>\<open>string.punctuation\<close> and the degree sign. The six further marks of the source
      (ellipsis, en dash, typographic quotes) lie beyond U+00FF: no string of the model
      contains them, and removing a mark from a word without it changes nothing.\<close>
  "punctuation_to_remove = string_punctuation @ [CHR 0xB0]"

fun for_utterances :: "addr list \<Rightarrow> bool \<Rightarrow> bool \<Rightarrow> string set \<Rightarrow> language_identifier option
                         \<Rightarrow> addr list \<Rightarrow> world \<Rightarrow> (error + addr list) \<times> world" where
  "for_utterances [] remove_english use_langid english_words langid_identifier cleaned_data w =
     (Inr cleaned_data, w)"
| "for_utterances (utterance # rest) remove_english use_langid english_words langid_identifier
       cleaned_data w =
     (case clean_utterance (heap w utterance) remove_english (Some english_words)
             (Some punctuation_to_remove) (Some [''<silence>'']) of
        Inl e \<Rightarrow> (Inl e, w)
      | Inr (clean_words, english_word_count) \<Rightarrow>
          (case is_valid_utterance clean_words english_word_count remove_english use_langid
                  langid_identifier of
             (Inl e, calls) \<Rightarrow> (Inl e, w\<lparr>events := events w @ calls\<rparr>)
           | (Inr valid, calls) \<Rightarrow>
               if valid
               then for_utterances rest remove_english use_langid english_words langid_identifier
                      (cleaned_data @ [utterance])
                      (w\<lparr>heap := (heap w)(utterance :=
                                    (heap w utterance)(''transcript'' \<mapsto>
                                       Str (strip (join '' '' clean_words)))),
                          events := events w @ calls\<rparr>)
               else for_utterances rest remove_english use_langid english_words langid_identifier
                      cleaned_data (w\<lparr>events := events w @ calls\<rparr>)))"

definition clean_json_data :: "env \<Rightarrow> addr list \<Rightarrow> bool \<Rightarrow> bool \<Rightarrow> world
                                 \<Rightarrow> (error + addr list) \<times> world" where
  "clean_json_data env json_data remove_english use_langid w =
     (if remove_english
      then
        if use_langid
        then for_utterances json_data remove_english use_langid (nltk_words env)
               (Some (langid_model env)) []
               (w\<lparr>events := events w @ [Get_english_words, From_modelstring]\<rparr>)
        else for_utterances json_data remove_english use_langid (nltk_words env) None []
               (w\<lparr>events := events w @ [Get_english_words]\<rparr>)
      else for_utterances json_data remove_english use_langid {} None [] w)"

section \<open>Vocabulary of the specification\<close>

definition mapping_line :: "string \<Rightarrow> string \<Rightarrow> string \<Rightarrow> bool" where
  \<comment> \<open>a line of the mapping config that states the rule \<open>grapheme\<close>, one space, \<open>phoneme\<close>:
      it is not a comment, and stripped of surrounding whitespace it is the grapheme, which
      holds no space, a space, and the rest\<close>
  "mapping_line line grapheme phoneme =
     (line \<noteq> [] \<and> hd line \<noteq> CHR ''#'' \<and> CHR '' '' \<notin> set grapheme
      \<and> strip line = grapheme @ '' '' @ phoneme)"

inductive greedy_segmentation :: "sound_mapping list \<Rightarrow> string \<Rightarrow> nat \<Rightarrow> string list \<Rightarrow> bool" where
  \<comment> \<open>the phonemes of \<open>word\<close> from \<open>cursor\<close> on, as the specification segments a word in
      which every position reached is matched: at the cursor the first mapping in table
      order whose grapheme stands in the word exactly there is accepted, its phoneme is
      appended and the cursor moves by the length of the grapheme, until the end of the
      word\<close>
  finished: "length word \<le> cursor \<Longrightarrow> greedy_segmentation table word cursor []"
| accept:
    "cursor < length word
     \<Longrightarrow> table = before @ (grapheme, phoneme) # after
     \<Longrightarrow> \<forall>b\<in>set before. \<not> prefix (fst b) (drop cursor word)
     \<Longrightarrow> prefix grapheme (drop cursor word)
     \<Longrightarrow> greedy_segmentation table word (cursor + length grapheme) phonemes
     \<Longrightarrow> greedy_segmentation table word cursor (phoneme # phonemes)"

definition lexicon_entry :: "string \<Rightarrow> string list \<Rightarrow> string" where
  \<comment> \<open>a line of the lexicon: the word as given, then its phonemes\<close>
  "lexicon_entry word phonemes = join '' '' (word # phonemes) @ [CHR 0x0A]"

definition dropping_token :: "string \<Rightarrow> bool" where
  \<comment> \<open>a token that makes the cleaner drop the utterance: a translation marker, or a token
      with a decimal digit that is not purely numeric\<close>
  "dropping_token word =
     (word \<in> translation_tags \<or> (search_digit word \<and> \<not> isdigit word))"

definition counted_english :: "bool \<Rightarrow> string set option \<Rightarrow> string \<Rightarrow> bool" where
  \<comment> \<open>a token, stripped of punctuation, that is counted as English and left out\<close>
  "counted_english remove_english english_words word =
     (remove_english \<and> 3 < length word
      \<and> (case english_words of None \<Rightarrow> False | Some corpus \<Rightarrow> word \<in> corpus))"

section \<open>Example data\<close>

definition example_world :: world where
  \<comment> \<open>three utterance records at the addresses 0, 1 and 2\<close>
  "example_world =
     \<lparr>heap = (\<lambda>_. Map.empty)
        (0 := [''transcript'' \<mapsto> Str ''Hello, World!'', ''speaker_id'' \<mapsto> Str ''ann'',
               ''start_ms'' \<mapsto> Num 5],
         1 := [''transcript'' \<mapsto> Str ''@eng@ hi''],
         2 := [''transcript'' \<mapsto> Str ''Bonjour 12 <silence>'']),
      events = []\<rparr>"

definition example_env :: env where
  "example_env = \<lparr>nltk_words = {''hello'', ''world''}, langid_model = (\<lambda>_. (''fr'', 1))\<rparr>"

section \<open>Properties of the dictionary builder\<close>

subsection \<open>The mapping table\<close>

lemma keepends_Cons:
  "keepends (c # cs) =
     (if c = CHR 0x0A then [c] # keepends cs
      else (case keepends cs of [] \<Rightarrow> [[c]] | l # ls \<Rightarrow> (c # l) # ls))"
  by (simp add: keepends_def)

lemma keepends_no_empty_line: "[] \<notin> set (keepends s)"
proof (induction s)
  case Nil
  show ?case by (simp add: keepends_def)
next
  case (Cons c cs)
  then show ?case
    by (cases "keepends cs") (auto simp: keepends_Cons)
qed

lemma readlines_no_empty_line: "[] \<notin> set (readlines content)"
  unfolding readlines_def by (rule keepends_no_empty_line)

lemma parse_configs_loop_total:
  "[] \<notin> set lines \<Longrightarrow> \<exists>collected. parse_configs_loop lines sound_mappings = Inr collected"
proof (induction lines arbitrary: sound_mappings)
  case Nil
  show ?case by simp
next
  case (Cons line rest)
  then obtain c cs where line: "line = c # cs" by (cases line) auto
  from Cons.prems have "[] \<notin> set rest" by simp
  with Cons.IH show ?case by (simp add: line Let_def)
qed

lemma sort_reverse_sorted:
  "sorted_wrt (\<lambda>a b. key b \<le> key a) (sort_reverse key xs)"
proof -
  have "sorted (map key (sort_key key (rev xs)))" by simp
  then have "sorted_wrt (\<lambda>a b. key a \<le> key b) (sort_key key (rev xs))"
    by (simp only: sorted_map)
  then show ?thesis
    unfolding sort_reverse_def by (simp only: sorted_wrt_rev)
qed

lemma sort_reverse_stable:
  "filter (\<lambda>x. key x = n) (sort_reverse key xs) = filter (\<lambda>x. key x = n) xs"
proof -
  have "filter (\<lambda>x. key x = n) (sort_key key (rev xs)) = filter (\<lambda>x. key x = n) (rev xs)"
    by (rule sort_key_stable)
  then show ?thesis
    unfolding sort_reverse_def by (simp add: rev_filter [symmetric])
qed

lemma set_sort_reverse: "set (sort_reverse key xs) = set xs"
  by (simp add: sort_reverse_def)

lemma length_sort_reverse: "length (sort_reverse key xs) = length xs"
  by (simp add: sort_reverse_def)

text \<open>
  Claim C4. For every mapping config, \<open>parse_configs\<close> returns a table sorted descending
  by grapheme length: a mapping with a longer grapheme stands before (is tried before) every
  mapping with a shorter one, and the mappings of one grapheme length keep the order in
  which the lines of the config added them (the sort is stable).
\<close>

theorem parse_configs_longest_first:
  "\<exists>collected table.
      parse_configs_loop (readlines config_file) [] = Inr collected
    \<and> parse_configs config_file = Inr table
    \<and> sorted_wrt (\<lambda>a b. length (fst b) \<le> length (fst a)) table
    \<and> (\<forall>i j. j < length table \<and> length (fst (table ! j)) < length (fst (table ! i)) \<and> i < length table \<longrightarrow> i < j)
    \<and> (\<forall>n. filter (\<lambda>m. length (fst m) = n) table = filter (\<lambda>m. length (fst m) = n) collected)
    \<and> set table = set collected \<and> length table = length collected"
proof -
  obtain collected where c: "parse_configs_loop (readlines config_file) [] = Inr collected"
    using parse_configs_loop_total [OF readlines_no_empty_line] by blast
  define table where "table = sort_reverse (\<lambda>x. length (fst x)) collected"
  have t: "parse_configs config_file = Inr table"
    by (simp add: parse_configs_def c table_def)
  have s: "sorted_wrt (\<lambda>a b. length (fst b) \<le> length (fst a)) table"
    unfolding table_def by (rule sort_reverse_sorted)
  have o: "i < j" if "j < length table" "length (fst (table ! j)) < length (fst (table ! i))"
    "i < length table" for i j
  proof (rule ccontr)
    assume "\<not> i < j"
    then have "j < i \<or> j = i" by auto
    then show False
    proof
      assume "j < i"
      with s that(3) have "length (fst (table ! i)) \<le> length (fst (table ! j))"
        by (simp add: sorted_wrt_iff_nth_less)
      with that(2) show False by simp
    next
      assume "j = i" with that(2) show False by simp
    qed
  qed
  have st: "filter (\<lambda>m. length (fst m) = n) table = filter (\<lambda>m. length (fst m) = n) collected" for n
    unfolding table_def by (rule sort_reverse_stable)
  show ?thesis
    using c t s o st by (auto simp: table_def set_sort_reverse length_sort_reverse)
qed

theorem parse_configs_longest_first_witness:
  "\<exists>table. parse_configs ''a A\<newline>bb B\<newline>c C\<newline>'' = Inr table
     \<and> table = [(''bb'', ''B''), (''a'', ''A''), (''c'', ''C'')]
     \<and> 1 < length table \<and> length (fst (table ! 1)) < length (fst (table ! 0))
     \<and> 0 < length table \<and> (0::nat) < 1"
proof -
  have e: "parse_configs ''a A\<newline>bb B\<newline>c C\<newline>'' = Inr [(''bb'', ''B''), (''a'', ''A''), (''c'', ''C'')]"
    by code_simp
  show ?thesis
    using parse_configs_longest_first [of "''a A\<newline>bb B\<newline>c C\<newline>''"] e by simp
qed

subsection \<open>The lines of the mapping config\<close>

lemma last_dropWhile: "dropWhile P xs \<noteq> [] \<Longrightarrow> last (dropWhile P xs) = last xs"
  by (induction xs) (auto split: if_splits)

lemma hd_dropWhile_not: "dropWhile P xs \<noteq> [] \<Longrightarrow> \<not> P (hd (dropWhile P xs))"
  by (induction xs) (auto split: if_splits)

lemma strip_ends:
  assumes "strip s \<noteq> []"
  shows "\<not> isspace (hd (strip s))" and "\<not> isspace (last (strip s))"
proof -
  define t where "t = dropWhile isspace s"
  define u where "u = dropWhile isspace (rev t)"
  have su: "strip s = rev u" by (simp add: strip_def t_def u_def)
  with assms have u: "u \<noteq> []" by simp
  then have rt: "rev t \<noteq> []" unfolding u_def by auto
  then have tn: "t \<noteq> []" by simp
  have "last u = last (rev t)" using u unfolding u_def by (rule last_dropWhile)
  also have "\<dots> = hd t" using tn by (simp add: last_rev)
  finally have "hd (strip s) = hd t" using u by (simp add: su hd_rev)
  moreover have "\<not> isspace (hd t)" using tn unfolding t_def by (rule hd_dropWhile_not)
  ultimately show "\<not> isspace (hd (strip s))" by simp
  have "last (strip s) = hd u" using u by (simp add: su last_rev)
  moreover have "\<not> isspace (hd u)" using u unfolding u_def by (rule hd_dropWhile_not)
  ultimately show "\<not> isspace (last (strip s))" by simp
qed

lemma split_sep1_at: "sep \<notin> set g \<Longrightarrow> split_sep1 sep (g @ sep # p) = [g, p]"
proof -
  assume a: "sep \<notin> set g"
  have all: "\<And>x. x \<in> set g \<Longrightarrow> x \<noteq> sep" using a by blast
  have d: "dropWhile (\<lambda>c. c \<noteq> sep) (g @ sep # p) = sep # p"
    using all by (induction g) auto
  have t: "takeWhile (\<lambda>c. c \<noteq> sep) (g @ sep # p) = g"
    using all by (induction g) auto
  show ?thesis by (simp add: split_sep1_def d t)
qed

lemma split_sep1_none: "sep \<notin> set s \<Longrightarrow> split_sep1 sep s = [s]"
proof -
  assume a: "sep \<notin> set s"
  then have "dropWhile (\<lambda>c. c \<noteq> sep) s = []" by (induction s) auto
  then show ?thesis by (simp only: split_sep1_def list.case)
qed

lemma isspace_space: "isspace (CHR '' '')"
  by (simp add: isspace_def code_point_def)

lemma mapping_line_parts:
  assumes "mapping_line line g p"
  shows "g \<noteq> []" and "p \<noteq> []"
proof -
  from assms have s: "strip line = g @ CHR '' '' # p" by (simp add: mapping_line_def)
  then have ne: "strip line \<noteq> []" by simp
  show "g \<noteq> []"
  proof
    assume "g = []"
    with s have "hd (strip line) = CHR '' ''" by simp
    with strip_ends(1) [OF ne] isspace_space show False by simp
  qed
  show "p \<noteq> []"
  proof
    assume "p = []"
    with s have "last (strip line) = CHR '' ''" by simp
    with strip_ends(2) [OF ne] isspace_space show False by simp
  qed
qed

lemma mapping_line_unique:
  assumes "mapping_line line g p" and "mapping_line line g' p'"
  shows "g' = g \<and> p' = p"
proof -
  from assms have a: "strip line = g @ CHR '' '' # p" "CHR '' '' \<notin> set g"
    and b: "strip line = g' @ CHR '' '' # p'" "CHR '' '' \<notin> set g'"
    by (simp_all add: mapping_line_def)
  have "split_sep1 (CHR '' '') (strip line) = [g, p]"
    unfolding a(1) using a(2) by (rule split_sep1_at)
  moreover have "split_sep1 (CHR '' '') (strip line) = [g', p']"
    unfolding b(1) using b(2) by (rule split_sep1_at)
  ultimately show ?thesis by simp
qed

lemma parse_configs_loop_comment:
  "parse_configs_loop ((CHR ''#'' # cs) # rest) sound_mappings = parse_configs_loop rest sound_mappings"
  by simp

lemma parse_configs_loop_no_sound:
  assumes "line \<noteq> []" and "CHR '' '' \<notin> set (strip line)"
  shows "parse_configs_loop (line # rest) sound_mappings = parse_configs_loop rest sound_mappings"
proof -
  from assms(1) obtain c cs where l: "line = c # cs" by (cases line) auto
  have "split_sep1 (CHR '' '') (strip line) = [strip line]"
    using assms(2) by (rule split_sep1_none)
  then show ?thesis by (simp add: l Let_def)
qed

lemma parse_configs_loop_mapping:
  assumes "mapping_line line g p"
  shows "parse_configs_loop (line # rest) sound_mappings
           = parse_configs_loop rest (sound_mappings @ [(g, p)])"
proof -
  from assms obtain c cs where l: "line = c # cs" and c: "c \<noteq> CHR ''#''"
    by (cases line) (auto simp: mapping_line_def)
  from assms have s: "strip line = g @ CHR '' '' # p" and ng: "CHR '' '' \<notin> set g"
    by (simp_all add: mapping_line_def)
  have sp: "split_sep1 (CHR '' '') (strip line) = [g, p]"
    unfolding s using ng by (rule split_sep1_at)
  from mapping_line_parts [OF assms] have "g \<noteq> []" "p \<noteq> []" .
  then show ?thesis using sp c by (simp add: l Let_def)
qed

lemma not_mapping_line_no_sound:
  assumes "line \<noteq> []" and "hd line \<noteq> CHR ''#''" and "\<forall>g p. \<not> mapping_line line g p"
  shows "CHR '' '' \<notin> set (strip line)"
proof
  assume "CHR '' '' \<in> set (strip line)"
  then obtain g p where "strip line = g @ CHR '' '' # p" "CHR '' '' \<notin> set g"
    by (meson split_list_first)
  then have "mapping_line line g p" using assms(1,2) by (simp add: mapping_line_def)
  with assms(3) show False by blast
qed

lemma parse_configs_loop_set:
  "[] \<notin> set lines \<Longrightarrow>
   \<exists>collected. parse_configs_loop lines sound_mappings = Inr collected
      \<and> set collected = set sound_mappings
            \<union> {m. \<exists>line\<in>set lines. mapping_line line (fst m) (snd m)}"
proof (induction lines arbitrary: sound_mappings)
  case Nil
  show ?case by simp
next
  case (Cons line rest)
  then have ne: "line \<noteq> []" and r: "[] \<notin> set rest" by auto
  let ?S = "\<lambda>ls. {m. \<exists>l\<in>set ls. mapping_line l (fst m) (snd m)}"
  show ?case
  proof (cases "\<exists>g p. mapping_line line g p")
    case True
    then obtain g p where m: "mapping_line line g p" by blast
    from Cons.IH [OF r, of "sound_mappings @ [(g, p)]"] obtain collected where
      c: "parse_configs_loop rest (sound_mappings @ [(g, p)]) = Inr collected"
      and s: "set collected = set (sound_mappings @ [(g, p)]) \<union> ?S rest" by blast
    have one: "x = (g, p)" if "mapping_line line (fst x) (snd x)" for x
      using mapping_line_unique [OF m that] by (cases x) simp
    have "?S (line # rest) = insert (g, p) (?S rest)"
    proof (rule set_eqI)
      fix x
      show "x \<in> ?S (line # rest) \<longleftrightarrow> x \<in> insert (g, p) (?S rest)"
        using one [of x] m by fastforce
    qed
    then have "set collected = set sound_mappings \<union> ?S (line # rest)"
      using s by simp
    moreover have "parse_configs_loop (line # rest) sound_mappings = Inr collected"
      by (simp only: parse_configs_loop_mapping [OF m] c)
    ultimately show ?thesis by blast
  next
    case False
    have skip: "parse_configs_loop (line # rest) sound_mappings = parse_configs_loop rest sound_mappings"
    proof (cases "hd line = CHR ''#''")
      case True
      with ne obtain cs where "line = CHR ''#'' # cs" by (cases line) auto
      then show ?thesis by simp
    next
      case h: False
      have "CHR '' '' \<notin> set (strip line)"
        using ne h False by (intro not_mapping_line_no_sound) auto
      with ne show ?thesis by (rule parse_configs_loop_no_sound)
    qed
    from False have "?S (line # rest) = ?S rest" by auto
    with Cons.IH [OF r, of sound_mappings] skip show ?thesis by (simp only:)
  qed
qed

text \<open>
  Claim C9, as amended. Reading a mapping config never fails. A line starting with \<open>#\<close> is
  ignored, and so is a line whose stripped text holds no space (no mapped sound after a
  space). Every other line is accepted as a mapping: the grapheme is the stripped text
  before its first space, the phoneme all that follows this space; the table holds exactly
  the mappings of these lines. Only the space character separates: a tab in the stripped
  line stays part of the grapheme or of the phoneme.
\<close>

theorem parse_configs_accepts_mapping_lines:
  "(\<exists>table. parse_configs config_file = Inr table
       \<and> set table = {m. \<exists>line\<in>set (readlines config_file). mapping_line line (fst m) (snd m)})
   \<and> (\<forall>cs rest sound_mappings.
         parse_configs_loop ((CHR ''#'' # cs) # rest) sound_mappings
           = parse_configs_loop rest sound_mappings)
   \<and> (\<forall>line rest sound_mappings. line \<noteq> [] \<and> CHR '' '' \<notin> set (strip line) \<longrightarrow>
         parse_configs_loop (line # rest) sound_mappings = parse_configs_loop rest sound_mappings)
   \<and> (\<forall>line g p rest sound_mappings. mapping_line line g p \<longrightarrow>
         parse_configs_loop (line # rest) sound_mappings
           = parse_configs_loop rest (sound_mappings @ [(g, p)]))
   \<and> (\<forall>line. line \<noteq> [] \<and> hd line \<noteq> CHR ''#'' \<and> CHR '' '' \<in> set (strip line)
         \<longrightarrow> (\<exists>g p. mapping_line line g p))
   \<and> parse_configs (''a'' @ [CHR 0x09] @ ''A B'' @ [CHR 0x0A])
       = Inr [(''a'' @ [CHR 0x09] @ ''A'', ''B'')]"
proof -
  obtain collected where c: "parse_configs_loop (readlines config_file) [] = Inr collected"
    and s: "set collected = set [] \<union> {m. \<exists>line\<in>set (readlines config_file). mapping_line line (fst m) (snd m)}"
    using parse_configs_loop_set [OF readlines_no_empty_line] by blast
  have "parse_configs config_file = Inr (sort_reverse (\<lambda>x. length (fst x)) collected)"
    by (simp add: parse_configs_def c)
  moreover have "set (sort_reverse (\<lambda>x. length (fst x)) collected)
                  = {m. \<exists>line\<in>set (readlines config_file). mapping_line line (fst m) (snd m)}"
    using s by (simp add: set_sort_reverse)
  ultimately have whole: "\<exists>table. parse_configs config_file = Inr table
       \<and> set table = {m. \<exists>line\<in>set (readlines config_file). mapping_line line (fst m) (snd m)}"
    by blast
  have other: "\<exists>g p. mapping_line line g p"
    if "line \<noteq> [] \<and> hd line \<noteq> CHR ''#'' \<and> CHR '' '' \<in> set (strip line)" for line
    using not_mapping_line_no_sound [of line] that by blast
  have tab: "parse_configs (''a'' @ [CHR 0x09] @ ''A B'' @ [CHR 0x0A])
       = Inr [(''a'' @ [CHR 0x09] @ ''A'', ''B'')]"
    by code_simp
  have steps: "(\<forall>cs rest sound_mappings.
         parse_configs_loop ((CHR ''#'' # cs) # rest) sound_mappings
           = parse_configs_loop rest sound_mappings)
   \<and> (\<forall>line rest sound_mappings. line \<noteq> [] \<and> CHR '' '' \<notin> set (strip line) \<longrightarrow>
         parse_configs_loop (line # rest) sound_mappings = parse_configs_loop rest sound_mappings)
   \<and> (\<forall>line g p rest sound_mappings. mapping_line line g p \<longrightarrow>
         parse_configs_loop (line # rest) sound_mappings
           = parse_configs_loop rest (sound_mappings @ [(g, p)]))"
    using parse_configs_loop_no_sound parse_configs_loop_mapping parse_configs_loop_comment
    by (intro conjI allI impI) blast+
  from whole steps other tab show ?thesis by (intro conjI allI impI) (blast | assumption)+
qed

theorem parse_configs_accepts_mapping_lines_witness:
  "mapping_line ''a A B\<newline>'' ''a'' ''A B''
   \<and> ''b\<newline>'' \<noteq> [] \<and> CHR '' '' \<notin> set (strip ''b\<newline>'')
   \<and> parse_configs_loop [''b\<newline>''] [] = parse_configs_loop [] []
   \<and> parse_configs_loop [''a A B\<newline>''] [] = parse_configs_loop [] ([] @ [(''a'', ''A B'')])
   \<and> parse_configs ''# c\<newline>b\<newline>a A B\<newline>'' = Inr [(''a'', ''A B'')]
   \<and> CHR '' '' \<in> set (strip (''a'' @ [CHR 0x09] @ ''A B'' @ [CHR 0x0A]))
   \<and> (\<exists>g p. mapping_line (''a'' @ [CHR 0x09] @ ''A B'' @ [CHR 0x0A]) g p)
   \<and> parse_configs (''a'' @ [CHR 0x09] @ ''A B'' @ [CHR 0x0A])
       = Inr [(''a'' @ [CHR 0x09] @ ''A'', ''B'')]"
proof -
  have m: "mapping_line ''a A B\<newline>'' ''a'' ''A B''"
    by (simp add: mapping_line_def strip_def isspace_def code_point_def)
  have n: "''b\<newline>'' \<noteq> [] \<and> CHR '' '' \<notin> set (strip ''b\<newline>'')"
    by (simp add: strip_def isspace_def code_point_def)
  have e: "parse_configs ''# c\<newline>b\<newline>a A B\<newline>'' = Inr [(''a'', ''A B'')]"
    by code_simp
  note t = parse_configs_accepts_mapping_lines [of "[]"]
  have skip: "parse_configs_loop [''b\<newline>''] [] = parse_configs_loop [] []"
    by (rule t [THEN conjunct2, THEN conjunct2, THEN conjunct1, rule_format, OF n])
  have take: "parse_configs_loop [''a A B\<newline>''] [] = parse_configs_loop [] ([] @ [(''a'', ''A B'')])"
    by (rule t [THEN conjunct2, THEN conjunct2, THEN conjunct2, THEN conjunct1, rule_format, OF m])
  have o: "(''a'' @ [CHR 0x09] @ ''A B'' @ [CHR 0x0A]) \<noteq> []
      \<and> hd (''a'' @ [CHR 0x09] @ ''A B'' @ [CHR 0x0A]) \<noteq> CHR ''#''
      \<and> CHR '' '' \<in> set (strip (''a'' @ [CHR 0x09] @ ''A B'' @ [CHR 0x0A]))"
    by (simp add: strip_def isspace_def code_point_def)
  have other: "\<exists>g p. mapping_line (''a'' @ [CHR 0x09] @ ''A B'' @ [CHR 0x0A]) g p"
    by (rule t [THEN conjunct2, THEN conjunct2, THEN conjunct2, THEN conjunct2, THEN conjunct1,
      rule_format, OF o])
  note tab = t [THEN conjunct2, THEN conjunct2, THEN conjunct2, THEN conjunct2, THEN conjunct2]
  note sp = o [THEN conjunct2, THEN conjunct2]
  from m n skip take e sp other tab show ?thesis
    by (intro conjI) (erule conjunct1 conjunct2 | assumption)+
qed

text \<open>
  Claim C9 as stated fails: a tab is whitespace, but a line whose grapheme and phoneme are
  separated by a tab alone is skipped.
\<close>

theorem parse_configs_tab_not_separator:
  "isspace (CHR 0x09)
   \<and> parse_configs (''a'' @ [CHR 0x09] @ ''A\<newline>'') = Inr []"
  by (simp add: isspace_def code_point_def parse_configs_def readlines_def keepends_def strip_def
      split_sep1_def sort_reverse_def)

subsection \<open>Segmentation\<close>

lemma find_eq_start_iff:
  "find s sub i = int i \<longleftrightarrow> i \<le> length s \<and> take (length sub) (drop i s) = sub"
proof (cases "i \<le> length s")
  case True
  let ?P = "\<lambda>k. take (length sub) (drop k s) = sub"
  have upt: "[i..<Suc (length s)] = i # [Suc i..<Suc (length s)]"
    using True by (simp add: upt_conv_Cons)
  show ?thesis
  proof (cases "?P i")
    case True
    then show ?thesis using \<open>i \<le> length s\<close> by (simp add: find_def upt del: upt_Suc)
  next
    case False
    have "find s sub i \<noteq> int i"
    proof (cases "filter ?P [Suc i..<Suc (length s)]")
      case Nil
      then show ?thesis using False by (simp add: find_def upt del: upt_Suc)
    next
      case (Cons k ks)
      then have "k \<in> set (filter ?P [Suc i..<Suc (length s)])" by simp
      then have "i < k" by auto
      then show ?thesis using False Cons by (simp add: find_def upt del: upt_Suc)
    qed
    then show ?thesis using False by simp
  qed
next
  case False
  then show ?thesis by (simp add: find_def)
qed

lemma find_eq_start_prefix:
  "find s sub i = int i \<longleftrightarrow> i \<le> length s \<and> prefix sub (drop i s)"
proof -
  have "take (length sub) xs = sub \<longleftrightarrow> prefix sub xs" for xs :: string
  proof
    assume "take (length sub) xs = sub"
    then have "xs = sub @ drop (length sub) xs" by (metis append_take_drop_id)
    then show "prefix sub xs" by (metis prefixI)
  next
    assume "prefix sub xs"
    then show "take (length sub) xs = sub" by (auto simp: prefix_def)
  qed
  then show ?thesis by (simp add: find_eq_start_iff)
qed

lemma for_maps_none:
  "\<forall>m\<in>set sound_mappings. find token_lower (fst m) i \<noteq> int i
   \<Longrightarrow> for_maps sound_mappings token_lower (found, res, i) = (found, res, i)"
  by (induction sound_mappings) auto

lemma for_maps_first:
  "\<forall>b\<in>set before. find token_lower (fst b) i \<noteq> int i
   \<Longrightarrow> find token_lower (fst maps) i = int i
   \<Longrightarrow> for_maps (before @ maps # after) token_lower (found, res, i)
       = (True, res @ [snd maps], i + length (fst maps))"
  by (induction before) auto

lemma while_body_no_match:
  assumes "\<forall>m\<in>set sound_mappings. find token_lower (fst m) i \<noteq> int i"
    and "i < length token_lower"
  shows "while_body sound_mappings token_lower (i, res, oov) = Inl (AttributeError ''dict'' ''add'')"
  using assms by (simp add: while_body_def for_maps_none dict_add_def)

lemma while_body_match:
  assumes "\<forall>b\<in>set before. find token_lower (fst b) i \<noteq> int i"
    and "find token_lower (fst maps) i = int i"
  shows "while_body (before @ maps # after) token_lower (i, res, oov)
           = Inr (i + length (fst maps), res @ [snd maps], oov)"
  using assms by (simp add: while_body_def for_maps_first)

lemma while_loop_segmentation:
  "greedy_segmentation sound_mappings token_lower i phonemes
   \<Longrightarrow> while_loop sound_mappings token_lower (i, res, oov) = Some (Inr (res @ phonemes, oov))"
proof (induction arbitrary: res rule: greedy_segmentation.induct)
  case (finished word cursor table)
  then show ?case by (subst while_loop.simps) simp
next
  case (accept cursor word table before grapheme phoneme after phonemes)
  have nb: "\<forall>b\<in>set before. find word (fst b) cursor \<noteq> int cursor"
    using accept(3) by (simp add: find_eq_start_prefix)
  have m: "find word (fst (grapheme, phoneme)) cursor = int cursor"
    using accept(1,4) by (simp add: find_eq_start_prefix)
  have body: "while_body table word (cursor, res, oov)
                = Inr (cursor + length grapheme, res @ [phoneme], oov)"
    unfolding accept(2) using while_body_match [OF nb m] by simp
  have "while_loop table word (cursor, res, oov)
          = while_loop table word (cursor + length grapheme, res @ [phoneme], oov)"
    using accept(1) body by (subst while_loop.simps) simp
  also have "\<dots> = Some (Inr ((res @ [phoneme]) @ phonemes, oov))" by (rule accept.IH)
  finally show ?case by simp
qed

lemma greedy_segmentation_unique:
  assumes "greedy_segmentation table word i ps" and "greedy_segmentation table word i ps'"
  shows "ps = ps'"
  using while_loop_segmentation [OF assms(1), of "[]" "[]"]
    while_loop_segmentation [OF assms(2), of "[]" "[]"] by simp

lemma for_tokens_segmented:
  "list_all2 (\<lambda>token phonemes. greedy_segmentation sound_mappings (lower token) 0 phonemes)
     tokens segmentations
   \<Longrightarrow> for_tokens sound_mappings tokens st
       = Some (Inr (), st\<lparr>output_file := output_file st
                              @ map2 lexicon_entry tokens segmentations\<rparr>)"
proof (induction arbitrary: st rule: list_all2_induct)
  case Nil
  show ?case by simp
next
  case (Cons token tokens phonemes segmentations)
  from while_loop_segmentation [OF Cons(1), of "[token]" "oov_characters st"]
  have w: "while_loop sound_mappings (lower token) (0, [token], oov_characters st)
             = Some (Inr (token # phonemes, oov_characters st))" by simp
  show ?case by (simp add: w Cons.IH lexicon_entry_def)
qed

lemma generate_dictionary_segmented:
  assumes "parse_configs config_file = Inr table"
    and "list_all2 (\<lambda>token phonemes. greedy_segmentation table (lower token) 0 phonemes)
           (parse_input input_file) segmentations"
  shows "generate_dictionary input_file config_file
       = Some (Inr (), \<lparr>output_file = [''!SIL sil'' @ [CHR 0x0A], ''<UNK> spn'' @ [CHR 0x0A]]
                           @ map2 lexicon_entry (parse_input input_file) segmentations,
                        oov_characters = [], stderr = []\<rparr>)"
  by (simp add: generate_dictionary_def assms(1) for_tokens_segmented [OF assms(2)])

lemma greedy_segmentation_the: "greedy_segmentation [(''th'', ''T''), (''e'', ''E''), (''t'', ''t''), (''h'', ''h'')]
     ''the'' 0 [''T'', ''E'']"
proof -
  let ?t = "[(''th'', ''T''), (''e'', ''E''), (''t'', ''t''), (''h'', ''h'')]"
  have 3: "greedy_segmentation ?t ''the'' 3 []" by (rule greedy_segmentation.finished) simp
  have 2: "greedy_segmentation ?t ''the'' (2 + length ''e'') []" using 3 by simp
  have "greedy_segmentation ?t ''the'' 2 [''E'']"
    by (rule greedy_segmentation.accept [where before = "[(''th'', ''T'')]" and after = "[(''t'', ''t''), (''h'', ''h'')]", OF _ _ _ _ 2]) simp_all
  then have 1: "greedy_segmentation ?t ''the'' (0 + length ''th'') [''E'']"
    by (simp add: numeral_2_eq_2)
  show ?thesis
    by (rule greedy_segmentation.accept [where before = "[]" and after = "[(''e'', ''E''), (''t'', ''t''), (''h'', ''h'')]", OF _ _ _ _ 1]) simp_all
qed

lemma code_point_Char:
  "code_point (Char b0 b1 b2 b3 b4 b5 b6 b7)
     = of_bool b0 + 2 * of_bool b1 + 4 * of_bool b2 + 8 * of_bool b3 + 16 * of_bool b4
       + 32 * of_bool b5 + 64 * of_bool b6 + 128 * of_bool b7"
  by (simp add: code_point_def)

lemma lower_char_not_upper: "\<not> isupper_char (lower_char c)"
proof (cases "isupper_char c")
  case False
  then show ?thesis by (simp add: lower_char_def)
next
  case True
  obtain b0 b1 b2 b3 b4 b5 b6 b7 where c: "c = Char b0 b1 b2 b3 b4 b5 b6 b7" by (cases c) auto
  define low :: nat where
    "low = of_bool b0 + 2 * of_bool b1 + 4 * of_bool b2 + 8 * of_bool b3 + 16 * of_bool b4"
  define high :: nat where "high = 64 * of_bool b6 + 128 * of_bool b7"
  have "of_bool b0 \<le> (1 :: nat)" "of_bool b1 \<le> (1 :: nat)" "of_bool b2 \<le> (1 :: nat)"
    "of_bool b3 \<le> (1 :: nat)" "of_bool b4 \<le> (1 :: nat)" by simp_all
  then have l: "low \<le> 31" unfolding low_def by linarith
  have h: "high = 0 \<or> high = 64 \<or> high = 128 \<or> high = 192"
    unfolding high_def by (cases b6; cases b7) simp_all
  have n: "code_point c = low + 32 * of_bool b5 + high"
    unfolding c code_point_Char low_def high_def by simp
  have lc: "lower_char c = Char b0 b1 b2 b3 b4 True b6 b7"
    using True by (simp add: lower_char_def c)
  have n': "code_point (lower_char c) = low + 32 + high"
    unfolding lc code_point_Char low_def high_def by simp
  from True have u: "(65 \<le> code_point c \<and> code_point c \<le> 90)
      \<or> (192 \<le> code_point c \<and> code_point c \<le> 222 \<and> code_point c \<noteq> 215)"
    by (simp add: isupper_char_def Let_def)
  have b5: "of_bool b5 = (0 :: nat)"
  proof (cases b5)
    case True
    with u l h n show ?thesis by auto
  qed simp
  from u l h have "\<not> ((65 \<le> low + 32 + high \<and> low + 32 + high \<le> 90)
      \<or> (192 \<le> low + 32 + high \<and> low + 32 + high \<le> 222 \<and> low + 32 + high \<noteq> 215))"
    unfolding n b5 by auto
  then show ?thesis by (simp add: isupper_char_def Let_def n')
qed

lemma lower_no_upper: "\<forall>c\<in>set (lower token). \<not> isupper_char c"
  by (simp add: lower_def lower_char_not_upper)

lemma lower_char_idem: "lower_char (lower_char c) = lower_char c"
  using lower_char_not_upper [of c] by (simp add: lower_char_def [of "lower_char c"])

lemma lower_idem: "lower (lower token) = lower token"
  by (simp add: lower_def lower_char_idem)


text \<open>
  Claim C3. The segmenter works on the lower-cased word: the loop of a token runs on
  \<open>lower token\<close>, which has the length of the token and no upper-case letter. At each
  cursor position it accepts the first mapping in table order whose grapheme occurs in
  that string exactly at the cursor, appends its phoneme and advances by the length of the
  grapheme; on a table sorted longest first no matching mapping has a longer grapheme than
  the accepted one. Hence, whenever the greedy segmentation of the specification gives
  phonemes for the lower-cased word, the entry written is the word as given followed by
  these phonemes, for one token and for the whole run; the segmentation of a word is
  unique. With the table th T, e E, t t, h h the word "the" gives the entry the T E, and
  the word "The" the entry The T E.
\<close>

theorem segmenter_first_match_wins:
  "(\<forall>m token_lower current_index res oov.
       m \<in> set sound_mappings \<and> find token_lower (fst m) current_index = int current_index
     \<longrightarrow> (\<exists>before maps after.
            sound_mappings = before @ maps # after
          \<and> (\<forall>b\<in>set before. find token_lower (fst b) current_index \<noteq> int current_index)
          \<and> current_index \<le> length token_lower
          \<and> prefix (fst maps) (drop current_index token_lower)
          \<and> while_body sound_mappings token_lower (current_index, res, oov)
              = Inr (current_index + length (fst maps), res @ [snd maps], oov)
          \<and> (sorted_wrt (\<lambda>a b. length (fst b) \<le> length (fst a)) sound_mappings
               \<longrightarrow> length (fst m) \<le> length (fst maps))))
   \<and> (\<forall>token phonemes rest (st :: run).
         greedy_segmentation sound_mappings (lower token) 0 phonemes
       \<longrightarrow> for_tokens sound_mappings (token # rest) st
           = for_tokens sound_mappings rest
               (st\<lparr>output_file := output_file st @ [lexicon_entry token phonemes]\<rparr>))
   \<and> (\<forall>input_file config_file segmentations.
         parse_configs config_file = Inr sound_mappings
         \<and> list_all2 (\<lambda>token phonemes. greedy_segmentation sound_mappings (lower token) 0 phonemes)
             (parse_input input_file) segmentations
       \<longrightarrow> generate_dictionary input_file config_file
           = Some (Inr (), \<lparr>output_file = [''!SIL sil'' @ [CHR 0x0A], ''<UNK> spn'' @ [CHR 0x0A]]
                               @ map2 lexicon_entry (parse_input input_file) segmentations,
                            oov_characters = [], stderr = []\<rparr>))
   \<and> (\<forall>word cursor phonemes phonemes'.
         greedy_segmentation sound_mappings word cursor phonemes
         \<and> greedy_segmentation sound_mappings word cursor phonemes'
       \<longrightarrow> phonemes' = phonemes)
   \<and> (\<forall>token. length (lower token) = length token
         \<and> (\<forall>c\<in>set (lower token). \<not> isupper_char c))
   \<and> generate_dictionary ''the\<newline>'' ''th T\<newline>e E\<newline>t t\<newline>h h\<newline>''
       = Some (Inr (), \<lparr>output_file = [''!SIL sil\<newline>'', ''<UNK> spn\<newline>'', ''the T E\<newline>''],
                        oov_characters = [], stderr = []\<rparr>)
   \<and> generate_dictionary ''The\<newline>'' ''th T\<newline>e E\<newline>t t\<newline>h h\<newline>''
       = Some (Inr (), \<lparr>output_file = [''!SIL sil\<newline>'', ''<UNK> spn\<newline>'', ''The T E\<newline>''],
                        oov_characters = [], stderr = []\<rparr>)"
proof (intro conjI allI impI)
  fix m token_lower current_index res oov
  assume a: "m \<in> set sound_mappings \<and> find token_lower (fst m) current_index = int current_index"
  let ?match = "\<lambda>x. find token_lower (fst x) current_index = int current_index"
  from a have "\<exists>x\<in>set sound_mappings. ?match x" by blast
  then obtain before maps after where
    sp: "sound_mappings = before @ maps # after" and mm: "?match maps"
    and nb: "\<forall>b\<in>set before. \<not> ?match b"
    using split_list_first_prop [of sound_mappings ?match] by blast
  from mm have pre: "current_index \<le> length token_lower"
      "prefix (fst maps) (drop current_index token_lower)"
    by (simp_all add: find_eq_start_prefix)
  have body: "while_body sound_mappings token_lower (current_index, res, oov)
              = Inr (current_index + length (fst maps), res @ [snd maps], oov)"
    unfolding sp using nb mm by (rule while_body_match)
  have longest: "length (fst m) \<le> length (fst maps)"
    if srt: "sorted_wrt (\<lambda>a b. length (fst b) \<le> length (fst a)) sound_mappings"
  proof -
    from a sp have "m \<in> set before \<or> m = maps \<or> m \<in> set after" by auto
    moreover have "m \<notin> set before" using nb a by blast
    moreover have "length (fst m) \<le> length (fst maps)" if "m \<in> set after"
      using srt that unfolding sp by (auto simp: sorted_wrt_append)
    ultimately show ?thesis by auto
  qed
  show "\<exists>before maps after.
            sound_mappings = before @ maps # after
          \<and> (\<forall>b\<in>set before. find token_lower (fst b) current_index \<noteq> int current_index)
          \<and> current_index \<le> length token_lower
          \<and> prefix (fst maps) (drop current_index token_lower)
          \<and> while_body sound_mappings token_lower (current_index, res, oov)
              = Inr (current_index + length (fst maps), res @ [snd maps], oov)
          \<and> (sorted_wrt (\<lambda>a b. length (fst b) \<le> length (fst a)) sound_mappings
               \<longrightarrow> length (fst m) \<le> length (fst maps))"
    using sp nb pre body longest by blast
next
  fix token phonemes rest and st :: run
  assume g: "greedy_segmentation sound_mappings (lower token) 0 phonemes"
  from while_loop_segmentation [OF g, of "[token]" "oov_characters st"]
  have "while_loop sound_mappings (lower token) (0, [token], oov_characters st)
          = Some (Inr (token # phonemes, oov_characters st))" by simp
  then show "for_tokens sound_mappings (token # rest) st
           = for_tokens sound_mappings rest
               (st\<lparr>output_file := output_file st @ [lexicon_entry token phonemes]\<rparr>)"
    by (simp add: lexicon_entry_def)
next
  fix input_file config_file segmentations
  assume "parse_configs config_file = Inr sound_mappings
         \<and> list_all2 (\<lambda>token phonemes. greedy_segmentation sound_mappings (lower token) 0 phonemes)
             (parse_input input_file) segmentations"
  then show "generate_dictionary input_file config_file
           = Some (Inr (), \<lparr>output_file = [''!SIL sil'' @ [CHR 0x0A], ''<UNK> spn'' @ [CHR 0x0A]]
                               @ map2 lexicon_entry (parse_input input_file) segmentations,
                            oov_characters = [], stderr = []\<rparr>)"
    using generate_dictionary_segmented by blast
next
  fix word cursor phonemes phonemes'
  assume "greedy_segmentation sound_mappings word cursor phonemes
         \<and> greedy_segmentation sound_mappings word cursor phonemes'"
  then show "phonemes' = phonemes" using greedy_segmentation_unique by blast
next
  fix token
  show "length (lower token) = length token" by (simp add: lower_def)
next
  fix token
  show "\<forall>c\<in>set (lower token). \<not> isupper_char c" by (rule lower_no_upper)
next
  show "generate_dictionary ''the\<newline>'' ''th T\<newline>e E\<newline>t t\<newline>h h\<newline>''
       = Some (Inr (), \<lparr>output_file = [''!SIL sil\<newline>'', ''<UNK> spn\<newline>'', ''the T E\<newline>''],
                        oov_characters = [], stderr = []\<rparr>)"
    by code_simp
next
  show "generate_dictionary ''The\<newline>'' ''th T\<newline>e E\<newline>t t\<newline>h h\<newline>''
       = Some (Inr (), \<lparr>output_file = [''!SIL sil\<newline>'', ''<UNK> spn\<newline>'', ''The T E\<newline>''],
                        oov_characters = [], stderr = []\<rparr>)"
    by code_simp
qed

theorem segmenter_first_match_wins_witness:
  "(''t'', ''t'') \<in> set [(''th'', ''T''), (''e'', ''E''), (''t'', ''t''), (''h'', ''h'')]
   \<and> find ''the'' (fst (''t'', ''t'')) 0 = int 0
   \<and> sorted_wrt (\<lambda>a b. length (fst b) \<le> length (fst a))
        [(''th'', ''T''), (''e'', ''E''), (''t'', ''t''), (''h'', ''h'')]
   \<and> (\<exists>before maps after.
         [(''th'', ''T''), (''e'', ''E''), (''t'', ''t''), (''h'', ''h'')] = before @ maps # after
       \<and> while_body [(''th'', ''T''), (''e'', ''E''), (''t'', ''t''), (''h'', ''h'')] ''the''
            (0, [''The''], []) = Inr (0 + length (fst maps), [''The''] @ [snd maps], [])
       \<and> length (fst (''t'', ''t'')) \<le> length (fst maps))
   \<and> lower ''The'' = ''the''
   \<and> greedy_segmentation [(''th'', ''T''), (''e'', ''E''), (''t'', ''t''), (''h'', ''h'')]
        (lower ''The'') 0 [''T'', ''E'']
   \<and> parse_configs ''th T\<newline>e E\<newline>t t\<newline>h h\<newline>''
       = Inr [(''th'', ''T''), (''e'', ''E''), (''t'', ''t''), (''h'', ''h'')]
   \<and> parse_input ''The\<newline>'' = [''The'']
   \<and> generate_dictionary ''The\<newline>'' ''th T\<newline>e E\<newline>t t\<newline>h h\<newline>''
       = Some (Inr (), \<lparr>output_file = [''!SIL sil'' @ [CHR 0x0A], ''<UNK> spn'' @ [CHR 0x0A]]
                           @ map2 lexicon_entry [''The''] [[''T'', ''E'']],
                        oov_characters = [], stderr = []\<rparr>)"
proof -
  let ?t = "[(''th'', ''T''), (''e'', ''E''), (''t'', ''t''), (''h'', ''h'')]"
  note th = segmenter_first_match_wins [of ?t]
  have h1: "(''t'', ''t'') \<in> set ?t" by simp
  have h2: "find ''the'' (fst (''t'', ''t'')) 0 = int 0" by (simp add: find_def)
  have h3: "sorted_wrt (\<lambda>a b. length (fst b) \<le> length (fst a)) ?t" by simp
  from th [THEN conjunct1, rule_format, OF conjI [OF h1 h2], of "[''The'']" "[]"] h3
  have c1: "\<exists>before maps after. ?t = before @ maps # after
       \<and> while_body ?t ''the'' (0, [''The''], [])
            = Inr (0 + length (fst maps), [''The''] @ [snd maps], [])
       \<and> length (fst (''t'', ''t'')) \<le> length (fst maps)" by blast
  have l: "lower ''The'' = ''the''"
    by (simp add: lower_def lower_char_def isupper_char_def code_point_def)
  have g: "greedy_segmentation ?t (lower ''The'') 0 [''T'', ''E'']"
    unfolding l by (rule greedy_segmentation_the)
  have p: "parse_configs ''th T\<newline>e E\<newline>t t\<newline>h h\<newline>'' = Inr ?t" by code_simp
  have i: "parse_input ''The\<newline>'' = [''The'']" by code_simp
  have a: "list_all2 (\<lambda>token phonemes. greedy_segmentation ?t (lower token) 0 phonemes)
             (parse_input ''The\<newline>'') [[''T'', ''E'']]"
    using g by (simp add: i)
  have c3: "generate_dictionary ''The\<newline>'' ''th T\<newline>e E\<newline>t t\<newline>h h\<newline>''
       = Some (Inr (), \<lparr>output_file = [''!SIL sil'' @ [CHR 0x0A], ''<UNK> spn'' @ [CHR 0x0A]]
                           @ map2 lexicon_entry (parse_input ''The\<newline>'') [[''T'', ''E'']],
                        oov_characters = [], stderr = []\<rparr>)"
    by (rule th [THEN conjunct2, THEN conjunct2, THEN conjunct1, rule_format, OF conjI [OF p a]])
  from h1 h2 h3 c1 l g p i c3 [unfolded i] show ?thesis
    by (intro conjI) (erule conjunct1 conjunct2 | assumption)+
qed

text \<open>
  Claim C1 says that an unmapped character is turned into a marker, recorded, and never
  halts the run. In the code the first unmapped character raises AttributeError, because
  \<open>oov_characters\<close> is a dict: for the word "xyz" and an empty table the run ends with the
  exception after the two header lines, and no entry for the word is written.
\<close>

theorem generate_dictionary_oov_raises:
  "generate_dictionary ''xyz\<newline>'' ''''
     = Some (Inl (AttributeError ''dict'' ''add''),
             \<lparr>output_file = [''!SIL sil\<newline>'', ''<UNK> spn\<newline>''], oov_characters = [], stderr = []\<rparr>)"
  by code_simp

text \<open>
  Claim C2 says that the lexicon has the two header entries and then one entry per input
  word. The same exception cuts the output short: for the words the, xyz, the and the table
  th T, e E the run writes the headers and the entry of the first word only.
\<close>

theorem generate_dictionary_output_cut_short:
  "parse_input ''the\<newline>xyz\<newline>the\<newline>'' = [''the'', ''xyz'', ''the'']
   \<and> generate_dictionary ''the\<newline>xyz\<newline>the\<newline>'' ''th T\<newline>e E\<newline>''
       = Some (Inl (AttributeError ''dict'' ''add''),
               \<lparr>output_file = [''!SIL sil\<newline>'', ''<UNK> spn\<newline>'', ''the T E\<newline>''],
                  oov_characters = [], stderr = []\<rparr>)"
  by code_simp

subsection \<open>Runs of the dictionary builder\<close>

text \<open>
  Every run returns: the graphemes of a parsed table are not empty, so each accepted
  mapping moves the cursor forward. A run that returns without an exception has written
  the two headers and one entry per word.
\<close>

lemma for_maps_found:
  "for_maps sound_mappings token_lower (False, res, i) = (True, res', i')
   \<Longrightarrow> \<exists>m\<in>set sound_mappings. i' = i + length (fst m)"
  by (induction sound_mappings) (auto split: if_splits)

lemma while_body_advances:
  assumes "while_body sound_mappings token_lower st = Inr st'"
    and "\<forall>m\<in>set sound_mappings. fst m \<noteq> []"
  shows "fst st < fst st'"
proof -
  obtain i res oov where st: "st = (i, res, oov)" by (cases st) auto
  obtain found res' i' where f: "for_maps sound_mappings token_lower (False, res, i) = (found, res', i')"
    by (cases "for_maps sound_mappings token_lower (False, res, i)") auto
  from assms(1) have found and s: "st' = (i', res', oov)"
    by (auto simp: while_body_def st f dict_add_def split: if_splits)
  from f \<open>found\<close> have "for_maps sound_mappings token_lower (False, res, i) = (True, res', i')"
    by simp
  from for_maps_found [OF this] obtain m where "m \<in> set sound_mappings" "i' = i + length (fst m)"
    by blast
  with assms(2) show ?thesis by (auto simp: st s)
qed

lemma while_loop_returns:
  assumes "\<forall>m\<in>set sound_mappings. fst m \<noteq> []"
  shows "\<exists>r. while_loop sound_mappings token_lower st = Some r"
proof (induction "length token_lower - fst st" arbitrary: st rule: less_induct)
  case less
  show ?case
  proof (cases "fst st < length token_lower")
    case False
    then show ?thesis by (subst while_loop.simps) simp
  next
    case True
    show ?thesis
    proof (cases "while_body sound_mappings token_lower st")
      case (Inl e)
      with True show ?thesis by (subst while_loop.simps) simp
    next
      case (Inr st')
      from while_body_advances [OF Inr assms] True
      have "length token_lower - fst st' < length token_lower - fst st" by simp
      from less [OF this] obtain r where "while_loop sound_mappings token_lower st' = Some r"
        by blast
      with True Inr show ?thesis by (subst while_loop.simps) simp
    qed
  qed
qed

lemma for_tokens_returns:
  assumes "\<forall>m\<in>set sound_mappings. fst m \<noteq> []"
  shows "\<exists>r. for_tokens sound_mappings tokens st = Some r"
proof (induction tokens arbitrary: st)
  case Nil
  show ?case by simp
next
  case (Cons token rest)
  from while_loop_returns [OF assms] obtain r where
    r: "while_loop sound_mappings (lower token) (0, [token], oov_characters st) = Some r"
    by blast
  show ?case
  proof (cases r)
    case (Inl e)
    with r show ?thesis by simp
  next
    case (Inr p)
    obtain res oov where "p = (res, oov)" by (cases p) auto
    with r Inr Cons.IH show ?thesis by simp
  qed
qed

lemma parse_configs_graphemes:
  assumes "parse_configs config_file = Inr table"
  shows "\<forall>m\<in>set table. fst m \<noteq> []"
proof -
  from parse_configs_loop_set [OF readlines_no_empty_line, of config_file "[]"]
  obtain collected where c: "parse_configs_loop (readlines config_file) [] = Inr collected"
    and s: "set collected = set [] \<union> {m. \<exists>line\<in>set (readlines config_file).
                mapping_line line (fst m) (snd m)}" by blast
  from assms c have "table = sort_reverse (\<lambda>x. length (fst x)) collected"
    by (simp add: parse_configs_def)
  then have "set table = set collected" by (simp add: set_sort_reverse)
  with s have "\<exists>line. mapping_line line (fst m) (snd m)" if "m \<in> set table" for m
    using that by auto
  with mapping_line_parts(1) show ?thesis by blast
qed

lemma generate_dictionary_returns:
  "\<exists>r. generate_dictionary input_file config_file = Some r"
proof (cases "parse_configs config_file")
  case (Inl e)
  then show ?thesis by (simp add: generate_dictionary_def)
next
  case (Inr table)
  from for_tokens_returns [OF parse_configs_graphemes [OF Inr]] obtain r st' where
    "for_tokens table (parse_input input_file)
       (\<lparr>output_file = [], oov_characters = [], stderr = []\<rparr>
          \<lparr>output_file := [''!SIL sil'' @ [CHR 0x0A], ''<UNK> spn'' @ [CHR 0x0A]]\<rparr>) = Some (r, st')"
    by (metis surj_pair)
  with Inr show ?thesis
    by (cases r) (simp_all add: generate_dictionary_def)
qed

lemma for_tokens_output:
  "for_tokens sound_mappings tokens st = Some (Inr u, st')
   \<Longrightarrow> length (output_file st') = length (output_file st) + length tokens
       \<and> take (length (output_file st)) (output_file st') = output_file st"
proof (induction tokens arbitrary: st)
  case Nil
  then show ?case by simp
next
  case (Cons token rest)
  from Cons.prems obtain res oov where
    "for_tokens sound_mappings rest
       (st\<lparr>output_file := output_file st @ [join '' '' res @ [CHR 0x0A]], oov_characters := oov\<rparr>)
     = Some (Inr u, st')"
    by (auto split: option.splits sum.splits prod.splits)
  from Cons.IH [OF this] show ?case
    by (auto simp: take_Suc_conv_app_nth dest: arg_cong [where f = "take (length (output_file st))"])
qed

lemma generate_dictionary_normal_run:
  assumes "generate_dictionary input_file config_file = Some (Inr u, st')"
  shows "length (output_file st') = length (parse_input input_file) + 2
       \<and> take 2 (output_file st') = [''!SIL sil'' @ [CHR 0x0A], ''<UNK> spn'' @ [CHR 0x0A]]"
proof -
  from assms obtain table st1 where
    f: "for_tokens table (parse_input input_file)
       (\<lparr>output_file = [], oov_characters = [], stderr = []\<rparr>
          \<lparr>output_file := [''!SIL sil'' @ [CHR 0x0A], ''<UNK> spn'' @ [CHR 0x0A]]\<rparr>)
         = Some (Inr u, st1)"
    and o: "output_file st' = output_file st1"
    by (auto simp: generate_dictionary_def Let_def split: sum.splits option.splits prod.splits)
  from for_tokens_output [OF f] o show ?thesis by (simp add: numeral_2_eq_2)
qed

section \<open>Properties of the transcript cleaner\<close>

subsection \<open>True division and the ratio of English words\<close>

lemma pow2_powi: "pow2 e = 2 powi e"
  by (simp add: pow2_def power_int_def inverse_eq_divide power_one_over)

lemma pow2_pos: "0 < pow2 e"
  by (simp add: pow2_powi)

lemma pow2_add: "pow2 (i + j) = pow2 i * pow2 j"
  by (simp add: pow2_powi power_int_add)

lemma pow2_mono: "i \<le> j \<Longrightarrow> pow2 i \<le> pow2 j"
  by (simp add: pow2_powi power_int_increasing)

lemma pow2_nat: "0 \<le> e \<Longrightarrow> pow2 e = 2 ^ nat e"
  by (simp add: pow2_def)

lemma round_half_even_ge:
  assumes "0 < d" and "of_int k \<le> (of_int n / of_int d :: rat)"
  shows "k \<le> round_half_even n d"
proof -
  from assms(2) have "k \<le> \<lfloor>of_int n / of_int d :: rat\<rfloor>" by (simp add: le_floor_iff)
  then have "k \<le> n div d" by (simp add: floor_divide_of_int_eq)
  moreover have "n div d \<le> round_half_even n d"
    by (simp add: round_half_even_def Let_def)
  ultimately show ?thesis by simp
qed

lemma round_half_even_le:
  assumes "0 < d" and "(of_int n / of_int d :: rat) \<le> of_int k"
  shows "round_half_even n d \<le> k"
proof -
  from assms have "(of_int n :: rat) \<le> of_int k * of_int d"
    by (simp add: pos_divide_le_eq)
  then have nk: "n \<le> k * d" by (metis of_int_le_iff of_int_mult)
  have nd: "n = d * (n div d) + n mod d" by simp
  show ?thesis
  proof (cases "n mod d = 0")
    case True
    then have "round_half_even n d = n div d"
      using assms(1) by (simp add: round_half_even_def Let_def)
    moreover have "n div d \<le> k"
    proof -
      from True nd have "n = d * (n div d)" by simp
      with nk have "d * (n div d) \<le> d * k" by (simp add: mult.commute)
      with assms(1) show ?thesis by simp
    qed
    ultimately show ?thesis by simp
  next
    case False
    with pos_mod_sign [OF assms(1), of n] have "0 < n mod d" by linarith
    with nd have "d * (n div d) < n" by linarith
    with nk have "d * (n div d) < d * k" by (simp add: mult.commute)
    with assms(1) have "n div d < k" by simp
    moreover have "round_half_even n d \<le> n div d + 1"
      by (simp add: round_half_even_def Let_def)
    ultimately show ?thesis by simp
  qed
qed

lemma scaled_ratio:
  assumes "0 < b"
  shows "0 < snd (scaled a b j)"
    and "(of_int (fst (scaled a b j)) / of_int (snd (scaled a b j)) :: rat)
           = of_int a / of_int b * pow2 j"
  using assms by (simp_all add: scaled_def pow2_def)

lemma bitlen_pow2_bounds:
  assumes "0 < a"
  shows "pow2 (bitlen a - 1) \<le> of_int a" and "of_int a < pow2 (bitlen a)"
proof -
  from assms have b0: "0 < bitlen a"
    using bitlen_nonneg [of a] bitlen_eq_zero_iff [of a] by linarith
  from bitlen_bounds [OF assms] have l: "2 ^ nat (bitlen a - 1) \<le> a" and u: "a < 2 ^ nat (bitlen a)"
    by simp_all
  from l have "(of_int (2 ^ nat (bitlen a - 1)) :: rat) \<le> of_int a" by (simp only: of_int_le_iff)
  then show "pow2 (bitlen a - 1) \<le> of_int a" using b0 by (simp add: pow2_nat)
  from u have "(of_int a :: rat) < of_int (2 ^ nat (bitlen a))" by (simp only: of_int_less_iff)
  then show "of_int a < pow2 (bitlen a)" using b0 by (simp add: pow2_nat)
qed

lemma floor_log2_bounds:
  assumes "0 < a" and "0 < b"
  shows "pow2 (floor_log2 a b) \<le> of_int a / of_int b"
    and "of_int a / of_int b < pow2 (floor_log2 a b + 1)"
proof -
  define k where "k = bitlen a - bitlen b"
  define q :: rat where "q = of_int a / of_int b"
  have bpos: "(0 :: rat) < of_int b" using assms(2) by simp
  have up: "q < pow2 (k + 1)"
  proof -
    have "of_int a < pow2 (bitlen a)" by (rule bitlen_pow2_bounds [OF assms(1)])
    also have "\<dots> = pow2 (k + 1) * pow2 (bitlen b - 1)"
      by (simp add: k_def pow2_add [symmetric])
    also have "\<dots> \<le> pow2 (k + 1) * of_int b"
      using bitlen_pow2_bounds(1) [OF assms(2)] pow2_pos [of "k + 1"]
      by (simp add: mult_left_mono)
    finally show ?thesis using bpos by (simp add: q_def pos_divide_less_eq)
  qed
  have lo: "pow2 (k - 1) < q"
  proof -
    have "pow2 (k - 1) * of_int b < pow2 (k - 1) * pow2 (bitlen b)"
      using bitlen_pow2_bounds(2) [OF assms(2)] pow2_pos [of "k - 1"]
      by (simp add: mult_strict_left_mono)
    also have "\<dots> = pow2 (bitlen a - 1)"
      by (simp add: k_def pow2_add [symmetric])
    also have "\<dots> \<le> of_int a" by (rule bitlen_pow2_bounds [OF assms(1)])
    finally show ?thesis using bpos by (simp add: q_def pos_less_divide_eq)
  qed
  have test: "snd (scaled a b (- k)) \<le> fst (scaled a b (- k)) \<longleftrightarrow> pow2 k \<le> q"
  proof -
    let ?n = "fst (scaled a b (- k))" and ?d = "snd (scaled a b (- k))"
    from scaled_ratio [OF assms(2), of a "- k"] have d: "0 < ?d"
      and r: "(of_int ?n / of_int ?d :: rat) = q * pow2 (- k)" by (simp_all add: q_def)
    have "?d \<le> ?n \<longleftrightarrow> (1 :: rat) \<le> of_int ?n / of_int ?d"
      using d by (simp add: pos_le_divide_eq)
    also have "\<dots> \<longleftrightarrow> 1 \<le> q * pow2 (- k)" by (simp only: r)
    also have "\<dots> \<longleftrightarrow> pow2 k \<le> q"
    proof -
      have "pow2 k * pow2 (- k) = 1" by (simp add: pow2_add [symmetric] pow2_def)
      then have "pow2 (- k) = 1 / pow2 k" using pow2_pos [of k]
        by (simp add: field_simps)
      then show ?thesis using pow2_pos [of k] by (simp add: pos_le_divide_eq)
    qed
    finally show ?thesis .
  qed
  have fl: "floor_log2 a b = (if pow2 k \<le> q then k else k - 1)"
    using test by (simp add: floor_log2_def k_def [symmetric] Let_def case_prod_beta)
  show "pow2 (floor_log2 a b) \<le> of_int a / of_int b"
    using lo by (simp add: fl q_def [symmetric])
  show "of_int a / of_int b < pow2 (floor_log2 a b + 1)"
    using up by (auto simp: fl q_def [symmetric])
qed

lemma significand_bounds:
  assumes "0 < a" and "0 < b"
  shows "significand a b \<le> 2 ^ 53"
    and "- 1022 \<le> floor_log2 a b \<Longrightarrow> 2 ^ 52 \<le> significand a b"
proof -
  define e where "e = exponent a b"
  define q :: rat where "q = of_int a / of_int b"
  let ?n = "fst (scaled a b (52 - e))" and ?d = "snd (scaled a b (52 - e))"
  from scaled_ratio [OF assms(2), of a "52 - e"] have d: "0 < ?d"
    and r: "(of_int ?n / of_int ?d :: rat) = q * pow2 (52 - e)" by (simp_all add: q_def)
  have s: "significand a b = round_half_even ?n ?d"
    by (simp add: significand_def e_def case_prod_beta)
  have fe: "floor_log2 a b \<le> e" by (simp add: e_def exponent_def)
  have qu: "q < pow2 (floor_log2 a b + 1)" and ql: "pow2 (floor_log2 a b) \<le> q"
    using floor_log2_bounds [OF assms] by (simp_all only: q_def)
  have "q * pow2 (52 - e) \<le> pow2 (floor_log2 a b + 1) * pow2 (52 - e)"
    by (intro mult_right_mono less_imp_le qu pow2_pos)
  also have "\<dots> = pow2 ((floor_log2 a b + 1) + (52 - e))" by (simp only: pow2_add)
  also have "\<dots> \<le> pow2 53" using fe by (intro pow2_mono) simp
  also have "pow2 53 = of_int (2 ^ 53)" by (simp add: pow2_def)
  finally have "of_int ?n / of_int ?d \<le> (of_int (2 ^ 53) :: rat)" by (simp only: r)
  from round_half_even_le [OF d this] show "significand a b \<le> 2 ^ 53" by (simp only: s)
  assume "- 1022 \<le> floor_log2 a b"
  then have ee: "e = floor_log2 a b" by (simp add: e_def exponent_def)
  have "(of_int (2 ^ 52) :: rat) = pow2 52" by (simp add: pow2_def)
  also have "\<dots> = pow2 (e + (52 - e))" by simp
  also have "\<dots> = pow2 e * pow2 (52 - e)" by (simp only: pow2_add)
  also have "\<dots> \<le> q * pow2 (52 - e)"
    unfolding ee by (intro mult_right_mono less_imp_le ql pow2_pos)
  finally have "(of_int (2 ^ 52) :: rat) \<le> of_int ?n / of_int ?d" by (simp only: r)
  from round_half_even_ge [OF d this] show "2 ^ 52 \<le> significand a b" by (simp only: s)
qed

lemma floor_log2_ge:
  assumes "0 < a" and "0 < b" and "pow2 k \<le> of_int a / of_int b"
  shows "k \<le> floor_log2 a b"
proof (rule ccontr)
  assume "\<not> k \<le> floor_log2 a b"
  then have "floor_log2 a b + 1 \<le> k" by simp
  then have "pow2 (floor_log2 a b + 1) \<le> pow2 k" by (rule pow2_mono)
  with assms(3) floor_log2_bounds(2) [OF assms(1,2)] show False by simp
qed

lemma floor_log2_le:
  assumes "0 < a" and "0 < b" and "of_int a / of_int b < pow2 (k + 1)"
  shows "floor_log2 a b \<le> k"
proof (rule ccontr)
  assume "\<not> floor_log2 a b \<le> k"
  then have "k + 1 \<le> floor_log2 a b" by simp
  then have "pow2 (k + 1) \<le> pow2 (floor_log2 a b)" by (rule pow2_mono)
  with assms(3) floor_log2_bounds(1) [OF assms(1,2)] show False by simp
qed

lemma true_div_pos:
  assumes "0 < a" and "0 < b"
  shows "true_div a b =
     (if pow2 1024 \<le> of_int (significand a b) * pow2 (exponent a b - 52) then Inl OverflowError
      else Inr (of_int (significand a b) * pow2 (exponent a b - 52)))"
  using assms by (simp add: true_div_def Let_def)

lemma float_upper:
  assumes "0 < a" and "0 < b"
  shows "of_int (significand a b) * pow2 (exponent a b - 52) \<le> pow2 (exponent a b + 1)"
proof -
  have "(of_int (significand a b) :: rat) \<le> of_int (2 ^ 53)"
    using significand_bounds(1) [OF assms] by (simp only: of_int_le_iff)
  also have "\<dots> = pow2 53" by (simp add: pow2_def)
  finally have m: "(of_int (significand a b) :: rat) \<le> pow2 53" .
  have "of_int (significand a b) * pow2 (exponent a b - 52)
      \<le> pow2 53 * pow2 (exponent a b - 52)"
    by (rule mult_right_mono [OF m less_imp_le [OF pow2_pos]])
  also have "\<dots> = pow2 (53 + (exponent a b - 52))" by (simp only: pow2_add)
  also have "\<dots> \<le> pow2 (exponent a b + 1)" by (intro pow2_mono) simp
  finally show ?thesis .
qed

lemma float_lower:
  assumes "0 < a" and "0 < b" and "- 1022 \<le> floor_log2 a b"
  shows "pow2 (floor_log2 a b) \<le> of_int (significand a b) * pow2 (exponent a b - 52)"
proof -
  from assms(3) have e: "exponent a b = floor_log2 a b" by (simp add: exponent_def)
  have "pow2 (floor_log2 a b) \<le> pow2 (52 + (exponent a b - 52))"
    by (intro pow2_mono) (simp add: e)
  also have "\<dots> = pow2 52 * pow2 (exponent a b - 52)" by (simp only: pow2_add)
  also have "pow2 52 = of_int (2 ^ 52)" by (simp add: pow2_def)
  also have "of_int (2 ^ 52) * pow2 (exponent a b - 52)
      \<le> of_int (significand a b) * pow2 (exponent a b - 52)"
  proof -
    have "(of_int (2 ^ 52) :: rat) \<le> of_int (significand a b)"
      using significand_bounds(2) [OF assms] by (simp only: of_int_le_iff)
    then show ?thesis by (rule mult_right_mono [OF _ less_imp_le [OF pow2_pos]])
  qed
  finally show ?thesis .
qed

lemma true_div_no_overflow:
  assumes "0 \<le> a" and "a < 2 ^ 1023" and "0 < b"
  shows "\<exists>q. true_div a b = Inr q"
proof (cases "a = 0")
  case True
  with assms(3) show ?thesis by (simp add: true_div_def)
next
  case False
  with assms(1) have a: "0 < a" by simp
  have "(of_int a / of_int b :: rat) \<le> of_int a"
  proof -
    have "(1 :: rat) \<le> of_int b" using assms(3) by simp
    then have "(of_int a :: rat) * 1 \<le> of_int a * of_int b"
      using a by (intro mult_left_mono) simp_all
    then show ?thesis using assms(3) by (simp add: pos_divide_le_eq)
  qed
  also have "(of_int a :: rat) < of_int (2 ^ 1023)" using assms(2) by (simp only: of_int_less_iff)
  also have "(of_int (2 ^ 1023) :: rat) = pow2 (1022 + 1)" by (simp add: pow2_def)
  finally have "floor_log2 a b \<le> 1022" by (rule floor_log2_le [OF a assms(3)])
  then have "exponent a b + 1 \<le> 1023" by (simp add: exponent_def)
  then have "pow2 (exponent a b + 1) \<le> pow2 1023" by (rule pow2_mono)
  also have "pow2 1023 < pow2 1024" by (simp add: pow2_def)
  finally have "of_int (significand a b) * pow2 (exponent a b - 52) < pow2 1024"
    using float_upper [OF a assms(3)] by simp
  then show ?thesis by (simp add: true_div_pos [OF a assms(3)])
qed

lemma significand_at:
  assumes "0 < b" and "exponent a b = e" and "0 \<le> 52 - e"
  shows "significand a b = round_half_even (a * 2 ^ nat (52 - e)) b"
  using assms by (simp add: significand_def scaled_def)

lemma float_0_1_pow2: "float_0_1 = 7205759403792794 * pow2 (- 56)"
  by (simp add: float_0_1_def pow2_def)

lemma true_div_le_tenth:
  assumes "0 \<le> a" and "0 < b" and "10 * a \<le> b"
  shows "\<exists>q. true_div a b = Inr q \<and> q \<le> float_0_1"
proof (cases "a = 0")
  case True
  with assms(2) show ?thesis by (simp add: true_div_def float_0_1_def)
next
  case False
  with assms(1) have a: "0 < a" by simp
  let ?v = "of_int (significand a b) * pow2 (exponent a b - 52) :: rat"
  have q: "(of_int a / of_int b :: rat) \<le> 1 / 10"
  proof -
    have "(of_int (10 * a) :: rat) \<le> of_int b" using assms(3) by (simp only: of_int_le_iff)
    then show ?thesis using assms(2) by (simp add: pos_divide_le_eq)
  qed
  have "(of_int a / of_int b :: rat) < pow2 (- 4 + 1)"
    using q by (simp add: pow2_def)
  then have fl: "floor_log2 a b \<le> - 4" by (rule floor_log2_le [OF a assms(2)])
  have v: "?v \<le> float_0_1"
  proof (cases "floor_log2 a b = - 4")
    case True
    then have e: "exponent a b = - 4" by (simp add: exponent_def)
    have s: "significand a b = round_half_even (a * 2 ^ 56) b"
      using significand_at [OF assms(2) e] by simp
    have "a * 2 ^ 56 \<le> 7205759403792794 * b" using assms(3) a by simp
    then have "(of_int (a * 2 ^ 56) :: rat) \<le> of_int (7205759403792794 * b)"
      by (simp only: of_int_le_iff)
    then have "(of_int (a * 2 ^ 56) / of_int b :: rat) \<le> of_int 7205759403792794"
      using assms(2) by (simp add: pos_divide_le_eq)
    from round_half_even_le [OF assms(2) this] have "significand a b \<le> 7205759403792794"
      by (simp only: s)
    then have "(of_int (significand a b) :: rat) \<le> of_int 7205759403792794"
      by (simp only: of_int_le_iff)
    then have "?v \<le> of_int 7205759403792794 * pow2 (exponent a b - 52)"
      by (rule mult_right_mono [OF _ less_imp_le [OF pow2_pos]])
    then show ?thesis by (simp add: e float_0_1_pow2)
  next
    case False
    with fl have "exponent a b + 1 \<le> - 4" by (simp add: exponent_def)
    then have "pow2 (exponent a b + 1) \<le> pow2 (- 4)" by (rule pow2_mono)
    also have "pow2 (- 4) \<le> float_0_1" by (simp add: pow2_def float_0_1_def)
    finally show ?thesis using float_upper [OF a assms(2)] by simp
  qed
  have "float_0_1 < pow2 1024" by (simp add: float_0_1_def pow2_def)
  with v have "\<not> pow2 1024 \<le> ?v" by simp
  then have "true_div a b = Inr ?v" by (simp add: true_div_pos [OF a assms(2)])
  with v show ?thesis by blast
qed

lemma true_div_gt_tenth:
  assumes "0 < b" and "b < 2 ^ 52" and "b < 10 * a" and "a < 2 ^ 1023"
  shows "\<exists>q. true_div a b = Inr q \<and> float_0_1 < q"
proof -
  from assms(1,3) have a: "0 < a" by simp
  let ?v = "of_int (significand a b) * pow2 (exponent a b - 52) :: rat"
  from true_div_no_overflow [OF less_imp_le [OF a] assms(4) assms(1)]
  have t: "true_div a b = Inr ?v"
    by (auto simp: true_div_pos [OF a assms(1)] split: if_splits)
  have q: "(1 / 10 :: rat) < of_int a / of_int b"
  proof -
    have "(of_int b :: rat) < of_int (10 * a)" using assms(3) by (simp only: of_int_less_iff)
    then show ?thesis using assms(1) by (simp add: pos_less_divide_eq)
  qed
  have "pow2 (- 4) \<le> (of_int a / of_int b :: rat)"
    using q by (simp add: pow2_def)
  then have fl: "- 4 \<le> floor_log2 a b" by (rule floor_log2_ge [OF a assms(1)])
  have "float_0_1 < ?v"
  proof (cases "floor_log2 a b = - 4")
    case True
    then have e: "exponent a b = - 4" by (simp add: exponent_def)
    have s: "significand a b = round_half_even (a * 2 ^ 56) b"
      using significand_at [OF assms(1) e] by simp
    have "7205759403792795 * b \<le> a * 2 ^ 56" using assms(1,2,3) a by simp
    then have "(of_int (7205759403792795 * b) :: rat) \<le> of_int (a * 2 ^ 56)"
      by (simp only: of_int_le_iff)
    then have "(of_int 7205759403792795 :: rat) \<le> of_int (a * 2 ^ 56) / of_int b"
      using assms(1) by (simp add: pos_le_divide_eq)
    from round_half_even_ge [OF assms(1) this] have "7205759403792795 \<le> significand a b"
      by (simp only: s)
    then have "(of_int 7205759403792795 :: rat) \<le> of_int (significand a b)"
      by (simp only: of_int_le_iff)
    then have "of_int 7205759403792795 * pow2 (exponent a b - 52) \<le> ?v"
      by (rule mult_right_mono [OF _ less_imp_le [OF pow2_pos]])
    moreover have "float_0_1 < of_int 7205759403792795 * pow2 (exponent a b - 52)"
      by (simp add: e float_0_1_def pow2_def)
    ultimately show ?thesis by simp
  next
    case False
    with fl have f: "- 3 \<le> floor_log2 a b" by simp
    have "float_0_1 < pow2 (- 3)" by (simp add: pow2_def float_0_1_def)
    also have "pow2 (- 3) \<le> pow2 (floor_log2 a b)" using f by (rule pow2_mono)
    also have "\<dots> \<le> ?v" using f by (intro float_lower [OF a assms(1)]) simp
    finally show ?thesis .
  qed
  with t show ?thesis by blast
qed

lemma true_div_exact_tenth:
  assumes "0 < a"
  shows "true_div a (10 * a) = Inr float_0_1"
proof -
  have b: "0 < 10 * a" using assms by simp
  have qe: "(of_int a / of_int (10 * a) :: rat) = 1 / 10" using assms by simp
  have "pow2 (- 4) \<le> (of_int a / of_int (10 * a) :: rat)" by (simp only: qe) (simp add: pow2_def)
  then have "- 4 \<le> floor_log2 a (10 * a)" by (rule floor_log2_ge [OF assms b])
  moreover have "(of_int a / of_int (10 * a) :: rat) < pow2 (- 4 + 1)"
    by (simp only: qe) (simp add: pow2_def)
  then have "floor_log2 a (10 * a) \<le> - 4" by (rule floor_log2_le [OF assms b])
  ultimately have e: "exponent a (10 * a) = - 4" by (simp add: exponent_def)
  have "significand a (10 * a) = round_half_even (a * 2 ^ 56) (a * 10)"
    using significand_at [OF b e] by (simp add: mult.commute)
  also have "\<dots> = 7205759403792794"
  proof -
    have d: "(a * 2 ^ 56) div (a * 10) = 7205759403792793"
      using assms by (simp only: div_mult_mult1 [of a]) simp
    have m: "(a * 2 ^ 56) mod (a * 10) = a * 6"
      using assms by (simp only: mod_mult_mult1 [of a]) simp
    show ?thesis using assms by (simp add: round_half_even_def d m Let_def)
  qed
  finally have s: "significand a (10 * a) = 7205759403792794" .
  show ?thesis
    by (simp add: true_div_pos [OF assms b] e s float_0_1_def pow2_def)
qed

lemma is_valid_utterance_ratio_exceeds:
  assumes "remove_english" and "0 < length clean_words"
    and "true_div english_word_count (int (length clean_words)) = Inr ratio"
    and "float_0_1 < ratio"
  shows "is_valid_utterance clean_words english_word_count remove_english use_langid
           langid_identifier = (Inr False, [])"
  using assms by (simp add: is_valid_utterance_def Let_def)

lemma is_valid_utterance_ratio_within:
  assumes "0 < length clean_words"
    and "true_div english_word_count (int (length clean_words)) = Inr ratio"
    and "ratio \<le> float_0_1"
  shows "is_valid_utterance clean_words english_word_count True False langid_identifier
           = (Inr (strip (join '' '' clean_words) \<noteq> []), [])"
  using assms by (simp add: is_valid_utterance_def Let_def)

text \<open>
  Claim C6. With remove_english on and at least one kept token, \<open>is_valid_utterance\<close>
  rejects the utterance when the quotient of the English word count by the number of kept
  tokens exceeds 0.1. The code compares floats: the quotient rounded to binary64 against
  the literal 0.1. For fewer than \<open>2 ^ 52\<close> kept tokens (and a count below \<open>2 ^ 1023\<close>, so
  that the division does not overflow) the floats compare as the exact numbers do: a count
  above a tenth of the kept tokens is rejected, and a count of at most a tenth, exactly a
  tenth included, is not rejected by this rule: without the language identifier the
  utterance is then valid unless its text is empty. One English word against five kept
  tokens is rejected.
\<close>

theorem is_valid_utterance_english_ratio:
  "(remove_english \<and> 0 < length clean_words
      \<and> true_div english_word_count (int (length clean_words)) = Inr ratio \<and> float_0_1 < ratio
     \<longrightarrow> is_valid_utterance clean_words english_word_count remove_english use_langid
           langid_identifier = (Inr False, []))
   \<and> (remove_english \<and> 0 < length clean_words \<and> length clean_words < 2 ^ 52
      \<and> int (length clean_words) < 10 * english_word_count \<and> english_word_count < 2 ^ 1023
     \<longrightarrow> is_valid_utterance clean_words english_word_count remove_english use_langid
           langid_identifier = (Inr False, []))
   \<and> (0 < length clean_words \<and> 0 \<le> english_word_count
      \<and> 10 * english_word_count \<le> int (length clean_words)
     \<longrightarrow> is_valid_utterance clean_words english_word_count True False langid_identifier
           = (Inr (strip (join '' '' clean_words) \<noteq> []), []))
   \<and> is_valid_utterance [''a'', ''b'', ''c'', ''d'', ''e''] 1 True use_langid langid_identifier
       = (Inr False, [])"
proof (intro conjI impI)
  assume "remove_english \<and> 0 < length clean_words
      \<and> true_div english_word_count (int (length clean_words)) = Inr ratio \<and> float_0_1 < ratio"
  then show "is_valid_utterance clean_words english_word_count remove_english use_langid
           langid_identifier = (Inr False, [])"
    using is_valid_utterance_ratio_exceeds by blast
next
  assume h: "remove_english \<and> 0 < length clean_words \<and> length clean_words < 2 ^ 52
      \<and> int (length clean_words) < 10 * english_word_count \<and> english_word_count < 2 ^ 1023"
  then have "0 < int (length clean_words)" "int (length clean_words) < 2 ^ 52" by simp_all
  from true_div_gt_tenth [OF this] h obtain q where
    "true_div english_word_count (int (length clean_words)) = Inr q" "float_0_1 < q" by blast
  with h show "is_valid_utterance clean_words english_word_count remove_english use_langid
           langid_identifier = (Inr False, [])"
    using is_valid_utterance_ratio_exceeds by blast
next
  assume h: "0 < length clean_words \<and> 0 \<le> english_word_count
      \<and> 10 * english_word_count \<le> int (length clean_words)"
  then have "0 < int (length clean_words)" by simp
  from true_div_le_tenth [OF _ this] h obtain q where
    "true_div english_word_count (int (length clean_words)) = Inr q" "q \<le> float_0_1" by blast
  with h show "is_valid_utterance clean_words english_word_count True False langid_identifier
           = (Inr (strip (join '' '' clean_words) \<noteq> []), [])"
    using is_valid_utterance_ratio_within by blast
next
  have t: "true_div 1 (int (length [''a'', ''b'', ''c'', ''d'', ''e''])) = Inr (3602879701896397 / 18014398509481984)"
    by code_simp
  have c: "float_0_1 < 3602879701896397 / 18014398509481984" by (simp add: float_0_1_def)
  show "is_valid_utterance [''a'', ''b'', ''c'', ''d'', ''e''] 1 True use_langid langid_identifier
       = (Inr False, [])"
    by (rule is_valid_utterance_ratio_exceeds [OF _ _ t c]) simp_all
qed

theorem is_valid_utterance_english_ratio_witness:
  "0 < length [''a'', ''b'', ''c'', ''d'', ''e'']
   \<and> true_div 1 (int (length [''a'', ''b'', ''c'', ''d'', ''e'']))
       = Inr (3602879701896397 / 18014398509481984)
   \<and> float_0_1 < 3602879701896397 / 18014398509481984
   \<and> length [''a'', ''b'', ''c'', ''d'', ''e''] < 2 ^ 52
   \<and> int (length [''a'', ''b'', ''c'', ''d'', ''e'']) < 10 * 1 \<and> (1 :: int) < 2 ^ 1023
   \<and> is_valid_utterance [''a'', ''b'', ''c'', ''d'', ''e''] 1 True True (Some (\<lambda>_. (''fr'', 1)))
       = (Inr False, [])
   \<and> 0 < length [''a'', ''b'', ''c'', ''d'', ''e'', ''f'', ''g'', ''h'', ''i'', ''j'']
   \<and> (0 :: int) \<le> 1
   \<and> 10 * 1 \<le> int (length [''a'', ''b'', ''c'', ''d'', ''e'', ''f'', ''g'', ''h'', ''i'', ''j''])
   \<and> is_valid_utterance [''a'', ''b'', ''c'', ''d'', ''e'', ''f'', ''g'', ''h'', ''i'', ''j''] 1
        True False None = (Inr True, [])"
proof -
  let ?five = "[''a'', ''b'', ''c'', ''d'', ''e'']"
  let ?ten = "[''a'', ''b'', ''c'', ''d'', ''e'', ''f'', ''g'', ''h'', ''i'', ''j'']"
  have t: "true_div 1 (int (length ?five)) = Inr (3602879701896397 / 18014398509481984)"
    by code_simp
  have c: "float_0_1 < 3602879701896397 / 18014398509481984" by (simp add: float_0_1_def)
  have h1: "True \<and> 0 < length ?five \<and> true_div 1 (int (length ?five))
              = Inr (3602879701896397 / 18014398509481984)
            \<and> float_0_1 < 3602879701896397 / 18014398509481984"
    using t c by simp
  have h2: "True \<and> 0 < length ?five \<and> length ?five < 2 ^ 52
      \<and> int (length ?five) < 10 * 1 \<and> (1 :: int) < 2 ^ 1023" by simp
  have h3: "0 < length ?ten \<and> (0 :: int) \<le> 1 \<and> 10 * 1 \<le> int (length ?ten)" by simp
  note th = is_valid_utterance_english_ratio
  have r1: "is_valid_utterance ?five 1 True True (Some (\<lambda>_. (''fr'', 1))) = (Inr False, [])"
    by (rule th [THEN conjunct1, rule_format, OF h1])
  have r2: "is_valid_utterance ?five 1 True True (Some (\<lambda>_. (''fr'', 1))) = (Inr False, [])"
    by (rule th [THEN conjunct2, THEN conjunct1, rule_format, OF h2])
  have s: "strip (join '' '' ?ten) \<noteq> []"
    by (simp add: strip_def isspace_def code_point_def)
  have "is_valid_utterance ?ten 1 True False None = (Inr (strip (join '' '' ?ten) \<noteq> []), [])"
    by (rule th [THEN conjunct2, THEN conjunct2, THEN conjunct1, rule_format, OF h3])
  with s have r3: "is_valid_utterance ?ten 1 True False None = (Inr True, [])" by simp
  from h1 h2 h3 r2 r3 show ?thesis by simp
qed

subsection \<open>Cleaning one utterance\<close>

lemma translation_tag_not_isdigit: "w \<in> translation_tags \<Longrightarrow> \<not> isdigit w"
  by (auto simp: translation_tags_def isdigit_def isdigit_char_def code_point_def)

lemma for_words_drops:
  assumes "remove_english \<longrightarrow> english_words \<noteq> None"
    and "word \<in> set ws"
    and "\<not> in_special_cases special_cases word"
    and "word \<in> translation_tags \<or> (search_digit word \<and> \<not> isdigit word)"
  shows "for_words ws remove_english english_words punctuation special_cases (clean_words, n)
           = Inr ([], 0)"
  using assms(2)
proof (induction ws arbitrary: clean_words n)
  case Nil
  then show ?case by simp
next
  case (Cons w rest)
  show ?case
  proof (cases "w = word")
    case True
    with assms(3,4) show ?thesis by auto
  next
    case False
    with Cons.prems have "word \<in> set rest" by simp
    then have ih: "for_words rest remove_english english_words punctuation special_cases (cw, k)
                     = Inr ([], 0)" for cw k
      by (rule Cons.IH)
    show ?thesis
      using assms(1) ih by (auto simp: Let_def split: option.splits)
  qed
qed

lemma for_words_numeric:
  "\<forall>w\<in>set ws. isdigit w \<and> \<not> in_special_cases special_cases w
   \<Longrightarrow> for_words ws False english_words punctuation special_cases (clean_words, n)
        = Inr (clean_words @ map (remove_punctuation punctuation) ws, n)"
proof (induction ws arbitrary: clean_words n)
  case Nil
  show ?case by simp
next
  case (Cons w rest)
  then have "isdigit w" "\<not> in_special_cases special_cases w" by auto
  moreover from \<open>isdigit w\<close> have "w \<notin> translation_tags"
    using translation_tag_not_isdigit by blast
  ultimately show ?case using Cons by (simp add: Let_def)
qed

lemma isdigit_not_dropping: "isdigit w \<Longrightarrow> \<not> dropping_token w"
  using translation_tag_not_isdigit by (auto simp: dropping_token_def)

lemma for_words_special:
  "in_special_cases special_cases w
   \<Longrightarrow> for_words (w # rest) remove_english english_words punctuation special_cases acc
       = for_words rest remove_english english_words punctuation special_cases acc"
  by (cases acc) simp

lemma for_words_kept:
  assumes "\<not> in_special_cases special_cases w" and "\<not> dropping_token w"
    and "remove_english \<longrightarrow> english_words \<noteq> None"
  shows "for_words (w # rest) remove_english english_words punctuation special_cases (cw, n)
       = (if counted_english remove_english english_words (remove_punctuation punctuation w)
          then for_words rest remove_english english_words punctuation special_cases (cw, n + 1)
          else for_words rest remove_english english_words punctuation special_cases
                 (cw @ [remove_punctuation punctuation w], n))"
  using assms
  by (auto simp: dropping_token_def counted_english_def Let_def split: option.splits)

lemma for_words_clean:
  assumes "remove_english \<longrightarrow> english_words \<noteq> None"
  shows "\<forall>w\<in>set ws. \<not> in_special_cases special_cases w \<longrightarrow> \<not> dropping_token w
   \<Longrightarrow> for_words ws remove_english english_words punctuation special_cases (cw, n)
       = Inr (cw @ filter (\<lambda>w. \<not> counted_english remove_english english_words w)
                     (map (remove_punctuation punctuation)
                        (filter (\<lambda>w. \<not> in_special_cases special_cases w) ws)),
              n + int (length (filter (counted_english remove_english english_words)
                     (map (remove_punctuation punctuation)
                        (filter (\<lambda>w. \<not> in_special_cases special_cases w) ws)))))"
proof (induction ws arbitrary: cw n)
  case Nil
  show ?case by simp
next
  case (Cons w rest)
  then have r: "\<forall>w\<in>set rest. \<not> in_special_cases special_cases w \<longrightarrow> \<not> dropping_token w"
    by simp
  note ih = Cons.IH [OF r]
  show ?case
  proof (cases "in_special_cases special_cases w")
    case True
    then show ?thesis by (simp only: for_words_special ih) simp
  next
    case False
    with Cons.prems have nd: "\<not> dropping_token w" by simp
    show ?thesis
      by (simp only: for_words_kept [OF False nd assms] ih) (simp add: False)
  qed
qed

text \<open>
  Claim C5, as amended. For an utterance with a string transcript, and an English word set
  given whenever remove_english is on: the tokens listed in the special cases are skipped
  first and take no part in what follows. \<open>clean_utterance\<close> returns ([], 0) as soon as one
  of the other tokens is a translation marker, or holds a decimal digit without being
  purely numeric. When none of them is, it returns the other tokens, each stripped of the
  punctuation, without those counted as English, and the number of those. A purely numeric
  token never drops the utterance, so it is in that list, stripped of punctuation, unless
  it is counted as English. The transcript "@eng@ hello" gives ([], 0) under the special
  cases of \<open>clean_json_data\<close>.
\<close>

theorem clean_utterance_drops_utterance:
  "(\<forall>utterance transcript remove_english word.
       utterance ''transcript'' = Some (Str transcript)
       \<and> (remove_english \<longrightarrow> english_words \<noteq> None)
       \<and> word \<in> set (split (lower transcript))
       \<and> \<not> in_special_cases special_cases word
       \<and> (word \<in> translation_tags \<or> (search_digit word \<and> \<not> isdigit word))
     \<longrightarrow> clean_utterance utterance remove_english english_words punctuation special_cases
           = Inr ([], 0))
   \<and> (\<forall>utterance transcript remove_english.
         utterance ''transcript'' = Some (Str transcript)
         \<and> (remove_english \<longrightarrow> english_words \<noteq> None)
         \<and> (\<forall>w\<in>set (split (lower transcript)).
               \<not> in_special_cases special_cases w \<longrightarrow> \<not> dropping_token w)
       \<longrightarrow> clean_utterance utterance remove_english english_words punctuation special_cases
           = Inr (filter (\<lambda>w. \<not> counted_english remove_english english_words w)
                    (map (remove_punctuation punctuation)
                       (filter (\<lambda>w. \<not> in_special_cases special_cases w)
                          (split (lower transcript)))),
                  int (length (filter (counted_english remove_english english_words)
                    (map (remove_punctuation punctuation)
                       (filter (\<lambda>w. \<not> in_special_cases special_cases w)
                          (split (lower transcript))))))))
   \<and> (\<forall>w. dropping_token w
            \<longleftrightarrow> w \<in> translation_tags \<or> (search_digit w \<and> \<not> isdigit w))
   \<and> (\<forall>w. isdigit w \<longrightarrow> \<not> dropping_token w)
   \<and> (\<forall>w rest remove_english acc.
         in_special_cases special_cases w
       \<longrightarrow> for_words (w # rest) remove_english english_words punctuation special_cases acc
           = for_words rest remove_english english_words punctuation special_cases acc)
   \<and> (\<forall>u t. u ''transcript'' = Some (Str t)
             \<and> (\<forall>w\<in>set (split (lower t)). isdigit w \<and> \<not> in_special_cases special_cases w)
           \<longrightarrow> clean_utterance u False english_words punctuation special_cases
                 = Inr (map (remove_punctuation punctuation) (split (lower t)), 0))
   \<and> (\<forall>remove_english.
         clean_utterance [''transcript'' \<mapsto> Str ''@eng@ hello''] remove_english english_words
            punctuation (Some [''<silence>'']) = Inr ([], 0))"
proof (intro conjI allI impI)
  fix utterance transcript remove_english word
  assume "utterance ''transcript'' = Some (Str transcript)
       \<and> (remove_english \<longrightarrow> english_words \<noteq> None)
       \<and> word \<in> set (split (lower transcript))
       \<and> \<not> in_special_cases special_cases word
       \<and> (word \<in> translation_tags \<or> (search_digit word \<and> \<not> isdigit word))"
  then have t: "utterance ''transcript'' = Some (Str transcript)"
    and h: "remove_english \<longrightarrow> english_words \<noteq> None"
      "word \<in> set (split (lower transcript))"
      "\<not> in_special_cases special_cases word"
      "word \<in> translation_tags \<or> (search_digit word \<and> \<not> isdigit word)" by blast+
  show "clean_utterance utterance remove_english english_words punctuation special_cases
           = Inr ([], 0)"
    by (simp add: clean_utterance_def t for_words_drops [OF h])
next
  fix utterance transcript remove_english
  assume a: "utterance ''transcript'' = Some (Str transcript)
         \<and> (remove_english \<longrightarrow> english_words \<noteq> None)
         \<and> (\<forall>w\<in>set (split (lower transcript)).
               \<not> in_special_cases special_cases w \<longrightarrow> \<not> dropping_token w)"
  then have e: "remove_english \<longrightarrow> english_words \<noteq> None"
    and c: "\<forall>w\<in>set (split (lower transcript)).
               \<not> in_special_cases special_cases w \<longrightarrow> \<not> dropping_token w" by blast+
  from a for_words_clean [OF e c, of punctuation "[]" 0]
  show "clean_utterance utterance remove_english english_words punctuation special_cases
           = Inr (filter (\<lambda>w. \<not> counted_english remove_english english_words w)
                    (map (remove_punctuation punctuation)
                       (filter (\<lambda>w. \<not> in_special_cases special_cases w)
                          (split (lower transcript)))),
                  int (length (filter (counted_english remove_english english_words)
                    (map (remove_punctuation punctuation)
                       (filter (\<lambda>w. \<not> in_special_cases special_cases w)
                          (split (lower transcript)))))))"
    by (simp add: clean_utterance_def)
next
  fix w
  show "dropping_token w \<longleftrightarrow> w \<in> translation_tags \<or> (search_digit w \<and> \<not> isdigit w)"
    by (simp add: dropping_token_def)
next
  fix w
  assume "isdigit w"
  then show "\<not> dropping_token w" by (rule isdigit_not_dropping)
next
  fix w rest remove_english and acc :: "string list \<times> int"
  assume "in_special_cases special_cases w"
  then show "for_words (w # rest) remove_english english_words punctuation special_cases acc
           = for_words rest remove_english english_words punctuation special_cases acc"
    by (rule for_words_special)
next
  fix u t
  assume "u ''transcript'' = Some (Str t)
             \<and> (\<forall>w\<in>set (split (lower t)). isdigit w \<and> \<not> in_special_cases special_cases w)"
  then show "clean_utterance u False english_words punctuation special_cases
                 = Inr (map (remove_punctuation punctuation) (split (lower t)), 0)"
    by (simp add: clean_utterance_def for_words_numeric)
next
  fix remove_english
  have s: "split (lower ''@eng@ hello'') = [''@eng@'', ''hello'']"
    by (simp add: split_def lower_def lower_char_def isupper_char_def isspace_def code_point_def)
  show "clean_utterance [''transcript'' \<mapsto> Str ''@eng@ hello''] remove_english english_words
            punctuation (Some [''<silence>'']) = Inr ([], 0)"
    by (simp add: clean_utterance_def s in_special_cases_def translation_tags_def)
qed

theorem clean_utterance_drops_utterance_witness:
  "[''transcript'' \<mapsto> Str ''I12 went home''] ''transcript'' = Some (Str ''I12 went home'')
   \<and> ''i12'' \<in> set (split (lower ''I12 went home''))
   \<and> \<not> in_special_cases (Some [''<silence>'']) ''i12''
   \<and> search_digit ''i12'' \<and> \<not> isdigit ''i12''
   \<and> clean_utterance [''transcript'' \<mapsto> Str ''I12 went home''] False None
        (Some punctuation_to_remove) (Some [''<silence>'']) = Inr ([], 0)
   \<and> [''transcript'' \<mapsto> Str ''@eng@ 1234 Hello, 12''] ''transcript''
        = Some (Str ''@eng@ 1234 Hello, 12'')
   \<and> split (lower ''@eng@ 1234 Hello, 12'') = [''@eng@'', ''1234'', ''hello,'', ''12'']
   \<and> in_special_cases (Some [''@eng@'']) ''@eng@''
   \<and> \<not> in_special_cases (Some [''@eng@'']) ''1234'' \<and> \<not> dropping_token ''1234''
   \<and> \<not> in_special_cases (Some [''@eng@'']) ''hello,'' \<and> \<not> dropping_token ''hello,''
   \<and> \<not> in_special_cases (Some [''@eng@'']) ''12'' \<and> \<not> dropping_token ''12''
   \<and> isdigit ''12'' \<and> isdigit ''1234''
   \<and> counted_english True (Some {''hello'', ''1234''}) ''1234''
   \<and> \<not> counted_english True (Some {''hello'', ''1234''}) ''12''
   \<and> clean_utterance [''transcript'' \<mapsto> Str ''@eng@ 1234 Hello, 12''] True
        (Some {''hello'', ''1234''}) (Some punctuation_to_remove) (Some [''@eng@''])
        = Inr ([''12''], 2)
   \<and> for_words [''@eng@'', ''hello''] False None None (Some [''@eng@'']) ([], 0)
        = for_words [''hello''] False None None (Some [''@eng@'']) ([], 0)
   \<and> [''transcript'' \<mapsto> Str ''12 345''] ''transcript'' = Some (Str ''12 345'')
   \<and> split (lower ''12 345'') = [''12'', ''345'']
   \<and> isdigit ''345'' \<and> \<not> in_special_cases (Some [''<silence>'']) ''12''
   \<and> \<not> in_special_cases (Some [''<silence>'']) ''345''
   \<and> clean_utterance [''transcript'' \<mapsto> Str ''12 345''] False None
        (Some punctuation_to_remove) (Some [''<silence>''])
        = Inr (map (remove_punctuation (Some punctuation_to_remove)) (split (lower ''12 345'')), 0)"
proof -
  note th1 = clean_utterance_drops_utterance
    [where english_words = None and special_cases = "Some [''<silence>'']"
       and punctuation = "Some punctuation_to_remove"]
  note th2 = clean_utterance_drops_utterance
    [where english_words = "Some {''hello'', ''1234''}" and special_cases = "Some [''@eng@'']"
       and punctuation = "Some punctuation_to_remove"]
  note th3 = clean_utterance_drops_utterance
    [where english_words = None and special_cases = "Some [''@eng@'']"
       and punctuation = None]
  note ev = split_def lower_def lower_char_def isupper_char_def isspace_def code_point_def
  have s1: "split (lower ''I12 went home'') = [''i12'', ''went'', ''home'']" by (simp add: ev)
  have a1: "[''transcript'' \<mapsto> Str ''I12 went home''] ''transcript'' = Some (Str ''I12 went home'')"
    by simp
  have a2: "''i12'' \<in> set (split (lower ''I12 went home''))" by (simp add: s1)
  have a3: "\<not> in_special_cases (Some [''<silence>'']) ''i12''" by (simp add: in_special_cases_def)
  have a4: "search_digit ''i12'' \<and> \<not> isdigit ''i12''"
    by (simp add: search_digit_def isdigit_def is_decimal_def isdigit_char_def code_point_def)
  have r1: "clean_utterance [''transcript'' \<mapsto> Str ''I12 went home''] False None
        (Some punctuation_to_remove) (Some [''<silence>'']) = Inr ([], 0)"
    by (rule th1 [THEN conjunct1, rule_format]) (use a1 a2 a3 a4 in blast)
  have s2: "split (lower ''@eng@ 1234 Hello, 12'') = [''@eng@'', ''1234'', ''hello,'', ''12'']"
    by (simp add: ev)
  have b1: "[''transcript'' \<mapsto> Str ''@eng@ 1234 Hello, 12''] ''transcript''
        = Some (Str ''@eng@ 1234 Hello, 12'')" by simp
  have sp: "in_special_cases (Some [''@eng@'']) ''@eng@''"
    "\<not> in_special_cases (Some [''@eng@'']) ''1234''"
    "\<not> in_special_cases (Some [''@eng@'']) ''hello,''"
    "\<not> in_special_cases (Some [''@eng@'']) ''12''"
    by (simp_all add: in_special_cases_def)
  have dg: "isdigit ''12''" "isdigit ''1234''" "isdigit ''345''"
    by (simp_all add: isdigit_def isdigit_char_def code_point_def)
  have nd: "\<not> dropping_token ''1234''" "\<not> dropping_token ''12''"
    using th2 [THEN conjunct2, THEN conjunct2, THEN conjunct2, THEN conjunct1] dg by blast+
  have nh: "\<not> dropping_token ''hello,''"
    by (simp add: dropping_token_def translation_tags_def search_digit_def is_decimal_def
        code_point_def)
  have ce: "counted_english True (Some {''hello'', ''1234''}) ''1234''"
    "\<not> counted_english True (Some {''hello'', ''1234''}) ''12''"
    "counted_english True (Some {''hello'', ''1234''}) ''hello''"
    by (simp_all add: counted_english_def)
  have b2: "\<forall>w\<in>set (split (lower ''@eng@ 1234 Hello, 12'')).
      \<not> in_special_cases (Some [''@eng@'']) w \<longrightarrow> \<not> dropping_token w"
    using sp nd nh by (simp add: s2)
  have rp: "remove_punctuation (Some punctuation_to_remove) ''1234'' = ''1234''"
    "remove_punctuation (Some punctuation_to_remove) ''hello,'' = ''hello''"
    "remove_punctuation (Some punctuation_to_remove) ''12'' = ''12''"
    by (simp_all add: remove_punctuation_def remove_mark_def punctuation_to_remove_def
        string_punctuation_def)
  have b3: "True \<longrightarrow> Some {''hello'', ''1234''} \<noteq> (None :: string set option)" by simp
  have "clean_utterance [''transcript'' \<mapsto> Str ''@eng@ 1234 Hello, 12''] True
        (Some {''hello'', ''1234''}) (Some punctuation_to_remove) (Some [''@eng@''])
      = Inr (filter (\<lambda>w. \<not> counted_english True (Some {''hello'', ''1234''}) w)
               (map (remove_punctuation (Some punctuation_to_remove))
                  (filter (\<lambda>w. \<not> in_special_cases (Some [''@eng@'']) w)
                     (split (lower ''@eng@ 1234 Hello, 12'')))),
             int (length (filter (counted_english True (Some {''hello'', ''1234''}))
               (map (remove_punctuation (Some punctuation_to_remove))
                  (filter (\<lambda>w. \<not> in_special_cases (Some [''@eng@'']) w)
                     (split (lower ''@eng@ 1234 Hello, 12'')))))))"
    by (rule th2 [THEN conjunct2, THEN conjunct1, rule_format]) (use b1 b2 b3 in blast)
  then have r2: "clean_utterance [''transcript'' \<mapsto> Str ''@eng@ 1234 Hello, 12''] True
        (Some {''hello'', ''1234''}) (Some punctuation_to_remove) (Some [''@eng@''])
        = Inr ([''12''], 2)"
    by (simp add: s2 sp rp ce)
  have sp0: "in_special_cases (Some [''@eng@'']) ''@eng@''" by (rule sp(1))
  have r3: "for_words [''@eng@'', ''hello''] False None None (Some [''@eng@'']) ([], 0)
        = for_words [''hello''] False None None (Some [''@eng@'']) ([], 0)"
    by (rule th3 [THEN conjunct2, THEN conjunct2, THEN conjunct2, THEN conjunct2, THEN conjunct1,
          rule_format, OF sp0])
  have s3: "split (lower ''12 345'') = [''12'', ''345'']" by (simp add: ev)
  have c1: "[''transcript'' \<mapsto> Str ''12 345''] ''transcript'' = Some (Str ''12 345'')" by simp
  have c2: "\<not> in_special_cases (Some [''<silence>'']) ''12''"
    "\<not> in_special_cases (Some [''<silence>'']) ''345''" by (simp_all add: in_special_cases_def)
  have c3: "\<forall>w\<in>set (split (lower ''12 345'')). isdigit w \<and> \<not> in_special_cases (Some [''<silence>'']) w"
    using dg c2 by (simp add: s3)
  have r4: "clean_utterance [''transcript'' \<mapsto> Str ''12 345''] False None
        (Some punctuation_to_remove) (Some [''<silence>''])
        = Inr (map (remove_punctuation (Some punctuation_to_remove)) (split (lower ''12 345'')), 0)"
    by (rule th1 [THEN conjunct2, THEN conjunct2, THEN conjunct2, THEN conjunct2, THEN conjunct2,
          THEN conjunct1, rule_format]) (use c1 c3 in blast)
  from a1 a2 a3 a4 r1 b1 s2 sp nd nh dg ce r2 r3 c1 s3 c2 r4 show ?thesis by simp
qed

text \<open>
  Claim C5 as stated fails for a configuration whose special cases hold a marker: the
  special cases are tested first, so the marker is skipped and the utterance is kept.
\<close>

theorem clean_utterance_special_case_first:
  "clean_utterance [''transcript'' \<mapsto> Str ''@eng@ hello''] False None None (Some [''@eng@''])
     = Inr ([''hello''], 0)"
  by (simp add: clean_utterance_def split_def lower_def lower_char_def isupper_char_def
      isspace_def code_point_def in_special_cases_def translation_tags_def search_digit_def
      is_decimal_def remove_punctuation_def)

subsection \<open>Cleaning a batch\<close>

lemma for_utterances_kept:
  "for_utterances us remove_english use_langid english_words langid_identifier acc w = (Inr out, w')
   \<Longrightarrow> \<exists>kept. out = acc @ kept \<and> subseq kept us"
proof (induction us arbitrary: acc w)
  case Nil
  then show ?case by simp
next
  case (Cons u rest)
  have keep: "\<exists>kept. out = acc @ kept \<and> subseq kept (u # rest)"
    if "for_utterances rest remove_english use_langid english_words langid_identifier
          (acc @ [u]) w1 = (Inr out, w')" for w1
  proof -
    from Cons.IH [OF that] obtain k where "out = (acc @ [u]) @ k" "subseq k rest" by blast
    then have "out = acc @ (u # k)" "subseq (u # k) (u # rest)" by simp_all
    then show ?thesis by blast
  qed
  have drop: "\<exists>kept. out = acc @ kept \<and> subseq kept (u # rest)"
    if "for_utterances rest remove_english use_langid english_words langid_identifier
          acc w1 = (Inr out, w')" for w1
  proof -
    from Cons.IH [OF that] obtain k where "out = acc @ k" "subseq k rest" by blast
    then have "out = acc @ k" "subseq k (u # rest)" by (auto intro: list_emb_Cons)
    then show ?thesis by blast
  qed
  from Cons.prems keep drop show ?case
    by (auto split: sum.splits prod.splits if_splits)
qed

lemma for_utterances_other_keys:
  "for_utterances us remove_english use_langid english_words langid_identifier acc w = (res, w')
   \<Longrightarrow> key \<noteq> ''transcript'' \<Longrightarrow> heap w' r key = heap w r key"
proof (induction us arbitrary: acc w)
  case Nil
  then show ?case by simp
next
  case (Cons u rest)
  have step: "heap w' r key = heap w r key"
    if "for_utterances rest remove_english use_langid english_words langid_identifier acc1 w1
          = (res, w')"
      and "heap w1 r key = heap w r key" for acc1 w1
    using Cons.IH [OF that(1) Cons.prems(2)] that(2) by simp
  from Cons.prems show ?case
    by (auto split: sum.splits prod.splits if_splits intro!: step)
qed

lemma for_utterances_unlisted:
  "for_utterances us remove_english use_langid english_words langid_identifier acc w = (res, w')
   \<Longrightarrow> r \<notin> set us \<Longrightarrow> heap w' r = heap w r"
proof (induction us arbitrary: acc w)
  case Nil
  then show ?case by simp
next
  case (Cons u rest)
  then have ru: "r \<noteq> u" and rr: "r \<notin> set rest" by auto
  have step: "heap w' r = heap w r"
    if "for_utterances rest remove_english use_langid english_words langid_identifier acc1 w1
          = (res, w')"
      and "heap w1 r = heap w r" for acc1 w1
    using Cons.IH [OF that(1) rr] that(2) by simp
  from Cons.prems(1) ru show ?case
    by (auto split: sum.splits prod.splits if_splits intro!: step)
qed

lemma for_utterances_dropped:
  "for_utterances us remove_english use_langid english_words langid_identifier acc w = (Inr out, w')
   \<Longrightarrow> r \<notin> set out \<Longrightarrow> heap w' r = heap w r"
proof (induction us arbitrary: acc w)
  case Nil
  then show ?case by simp
next
  case (Cons u rest)
  have keep: "heap w' r = heap w r"
    if run: "for_utterances rest remove_english use_langid english_words langid_identifier
          (acc @ [u]) w1 = (Inr out, w')"
      and h: "heap w1 = (heap w)(u := v)" for w1 v
  proof -
    from for_utterances_kept [OF run] have "u \<in> set out" by auto
    with Cons.prems(2) have "r \<noteq> u" by auto
    with h have "heap w1 r = heap w r" by simp
    with Cons.IH [OF run Cons.prems(2)] show ?thesis by simp
  qed
  have drop: "heap w' r = heap w r"
    if "for_utterances rest remove_english use_langid english_words langid_identifier acc w1
          = (Inr out, w')"
      and "heap w1 = heap w" for w1
    using Cons.IH [OF that(1) Cons.prems(2)] that(2) by simp
  from Cons.prems(1) show ?case
    by (auto split: sum.splits prod.splits if_splits intro: keep drop)
qed

lemma for_utterances_transcript:
  "for_utterances us remove_english use_langid english_words langid_identifier acc w = (Inr out, w')
   \<Longrightarrow> distinct us \<Longrightarrow> out = acc @ kept \<Longrightarrow> r \<in> set kept
   \<Longrightarrow> \<exists>clean_words n.
         clean_utterance (heap w r) remove_english (Some english_words)
           (Some punctuation_to_remove) (Some [''<silence>'']) = Inr (clean_words, n)
       \<and> heap w' r ''transcript'' = Some (Str (strip (join '' '' clean_words)))"
proof (induction us arbitrary: acc w kept)
  case Nil
  then show ?case by simp
next
  case (Cons u rest)
  let ?goal = "\<exists>clean_words n.
         clean_utterance (heap w r) remove_english (Some english_words)
           (Some punctuation_to_remove) (Some [''<silence>'']) = Inr (clean_words, n)
       \<and> heap w' r ''transcript'' = Some (Str (strip (join '' '' clean_words)))"
  from Cons.prems(2) have d: "distinct rest" and ur: "u \<notin> set rest" by auto
  have keep: ?goal
    if run: "for_utterances rest remove_english use_langid english_words langid_identifier
          (acc @ [u]) w1 = (Inr out, w')"
      and cu: "clean_utterance (heap w u) remove_english (Some english_words)
           (Some punctuation_to_remove) (Some [''<silence>'']) = Inr (cw, k)"
      and h: "heap w1 = (heap w)(u := (heap w u)(''transcript'' \<mapsto> Str (strip (join '' '' cw))))"
    for w1 cw k
  proof -
    from for_utterances_kept [OF run] obtain kept' where
      o: "out = (acc @ [u]) @ kept'" by blast
    with Cons.prems(3) have kept: "kept = u # kept'" by simp
    show ?thesis
    proof (cases "r = u")
      case True
      from for_utterances_unlisted [OF run ur] h
      have "heap w' u ''transcript'' = Some (Str (strip (join '' '' cw)))" by simp
      with cu True show ?thesis by blast
    next
      case False
      with Cons.prems(4) kept have "r \<in> set kept'" by simp
      from Cons.IH [OF run d o this] False h show ?thesis by simp
    qed
  qed
  have drop: ?goal
    if run: "for_utterances rest remove_english use_langid english_words langid_identifier acc w1
          = (Inr out, w')"
      and h: "heap w1 = heap w" for w1
    using Cons.IH [OF run d Cons.prems(3,4)] h by simp
  from Cons.prems(1) consider
      (valid) cw k calls where
        "clean_utterance (heap w u) remove_english (Some english_words)
           (Some punctuation_to_remove) (Some [''<silence>'']) = Inr (cw, k)"
        "for_utterances rest remove_english use_langid english_words langid_identifier
          (acc @ [u])
          (w\<lparr>heap := (heap w)(u := (heap w u)(''transcript'' \<mapsto> Str (strip (join '' '' cw)))),
              events := events w @ calls\<rparr>) = (Inr out, w')"
    | (invalid) calls where
        "for_utterances rest remove_english use_langid english_words langid_identifier acc
          (w\<lparr>events := events w @ calls\<rparr>) = (Inr out, w')"
    by (auto split: sum.splits prod.splits if_splits)
  then show ?case
  proof cases
    case valid
    show ?thesis by (rule keep [OF valid(2) valid(1)]) simp
  next
    case invalid
    show ?thesis by (rule drop [OF invalid]) simp
  qed
qed

lemma subseq_set: "subseq xs ys \<Longrightarrow> set xs \<subseteq> set ys"
  by (induction rule: list_emb.induct) auto

lemma subseq_keeps_distinct: "subseq xs ys \<Longrightarrow> distinct ys \<Longrightarrow> distinct xs"
proof (induction rule: list_emb.induct)
  case (list_emb_Cons2 x y xs ys)
  then have "x \<notin> set xs" using subseq_set [of xs ys] by auto
  with list_emb_Cons2 show ?case by simp
qed simp_all

lemma clean_json_data_loop:
  "\<exists>langid_identifier w0. heap w0 = heap w
     \<and> clean_json_data env json_data remove_english use_langid w
         = for_utterances json_data remove_english use_langid
             (if remove_english then nltk_words env else {}) langid_identifier [] w0"
proof (cases remove_english; cases use_langid)
  assume "remove_english" "use_langid"
  then have "heap (w\<lparr>events := events w @ [Get_english_words, From_modelstring]\<rparr>) = heap w
     \<and> clean_json_data env json_data remove_english use_langid w
         = for_utterances json_data remove_english use_langid
             (if remove_english then nltk_words env else {}) (Some (langid_model env)) []
             (w\<lparr>events := events w @ [Get_english_words, From_modelstring]\<rparr>)"
    by (simp add: clean_json_data_def)
  then show ?thesis by blast
next
  assume "remove_english" "\<not> use_langid"
  then have "heap (w\<lparr>events := events w @ [Get_english_words]\<rparr>) = heap w
     \<and> clean_json_data env json_data remove_english use_langid w
         = for_utterances json_data remove_english use_langid
             (if remove_english then nltk_words env else {}) None []
             (w\<lparr>events := events w @ [Get_english_words]\<rparr>)"
    by (simp add: clean_json_data_def)
  then show ?thesis by blast
next
  assume "\<not> remove_english" "use_langid"
  then have "heap w = heap w
     \<and> clean_json_data env json_data remove_english use_langid w
         = for_utterances json_data remove_english use_langid
             (if remove_english then nltk_words env else {}) None [] w"
    by (simp add: clean_json_data_def)
  then show ?thesis by blast
next
  assume "\<not> remove_english" "\<not> use_langid"
  then have "heap w = heap w
     \<and> clean_json_data env json_data remove_english use_langid w
         = for_utterances json_data remove_english use_langid
             (if remove_english then nltk_words env else {}) None [] w"
    by (simp add: clean_json_data_def)
  then show ?thesis by blast
qed

lemma clean_json_data_kept:
  assumes "clean_json_data env json_data remove_english use_langid w = (Inr cleaned_data, w')"
  shows "subseq cleaned_data json_data
       \<and> set cleaned_data \<subseteq> set json_data
       \<and> (distinct json_data \<longrightarrow> distinct cleaned_data)"
proof -
  from clean_json_data_loop [of w env json_data remove_english use_langid] assms
  obtain langid_identifier w0 where
    "for_utterances json_data remove_english use_langid
       (if remove_english then nltk_words env else {}) langid_identifier [] w0
     = (Inr cleaned_data, w')" by auto
  from for_utterances_kept [OF this] have s: "subseq cleaned_data json_data" by simp
  then show ?thesis using subseq_set subseq_keeps_distinct by blast
qed

text \<open>
  Claim C8. In every record the fields other than \<open>transcript\<close> are unchanged, a record
  that is not returned is unchanged altogether, and in a batch of distinct records the
  transcript of a returned record is the rejoined cleaned text of its input transcript.
\<close>

theorem clean_json_data_frame:
  assumes "clean_json_data env json_data remove_english use_langid w = (Inr cleaned_data, w')"
  shows "(\<forall>r key. key \<noteq> ''transcript'' \<longrightarrow> heap w' r key = heap w r key)
       \<and> (\<forall>r. r \<notin> set cleaned_data \<longrightarrow> heap w' r = heap w r)
       \<and> (distinct json_data \<longrightarrow>
            (\<forall>r\<in>set cleaned_data. \<exists>clean_words n.
                clean_utterance (heap w r) remove_english
                  (Some (if remove_english then nltk_words env else {}))
                  (Some punctuation_to_remove) (Some [''<silence>'']) = Inr (clean_words, n)
              \<and> heap w' r ''transcript'' = Some (Str (strip (join '' '' clean_words)))))"
proof -
  from clean_json_data_loop [of w env json_data remove_english use_langid] assms
  obtain langid_identifier w0 where h: "heap w0 = heap w" and
    run: "for_utterances json_data remove_english use_langid
       (if remove_english then nltk_words env else {}) langid_identifier [] w0
     = (Inr cleaned_data, w')" by auto
  have a: "heap w' r key = heap w r key" if "key \<noteq> ''transcript''" for r key
    using for_utterances_other_keys [OF run that] h by simp
  have b: "heap w' r = heap w r" if "r \<notin> set cleaned_data" for r
    using for_utterances_dropped [OF run that] h by simp
  have c: "\<exists>clean_words n.
                clean_utterance (heap w r) remove_english
                  (Some (if remove_english then nltk_words env else {}))
                  (Some punctuation_to_remove) (Some [''<silence>'']) = Inr (clean_words, n)
              \<and> heap w' r ''transcript'' = Some (Str (strip (join '' '' clean_words)))"
    if "distinct json_data" "r \<in> set cleaned_data" for r
    using for_utterances_transcript [OF run that(1) _ that(2)] h by simp
  from a b c show ?thesis by blast
qed

lemma is_valid_utterance_no_english:
  "is_valid_utterance clean_words n False use_langid langid_identifier
     = (Inr (strip (join '' '' clean_words) \<noteq> []), [])"
  by (simp add: is_valid_utterance_def Let_def)

lemma for_words_no_english_total:
  "\<exists>r. for_words ws False english_words punctuation special_cases acc = Inr r"
proof (induction ws arbitrary: acc)
  case Nil
  show ?case by (cases acc) simp
next
  case (Cons w rest)
  show ?case
  proof (cases acc)
    case (Pair cw n)
    show ?thesis using Cons by (simp add: Pair Let_def)
  qed
qed

lemma clean_utterance_no_english_error:
  "clean_utterance utterance False english_words punctuation special_cases = Inl e
   \<Longrightarrow> e = AttributeError ''NoneType'' ''lower'' \<or> e = AttributeError ''int'' ''lower''"
proof -
  assume a: "clean_utterance utterance False english_words punctuation special_cases = Inl e"
  have "for_words ws False english_words punctuation special_cases ([], 0) \<noteq> Inl e" for ws
    using for_words_no_english_total [of ws english_words punctuation special_cases "([], 0)"]
    by auto
  with a show ?thesis
    by (auto simp: clean_utterance_def split: option.splits json.splits)
qed

lemma for_utterances_no_english:
  "for_utterances us False use_langid english_words langid_identifier acc w
     = for_utterances us False False english_words langid_identifier acc w"
  by (induction us arbitrary: acc w)
     (simp_all add: is_valid_utterance_no_english split: sum.splits prod.splits)

lemma for_utterances_no_english_events:
  "events (snd (for_utterances us False use_langid english_words langid_identifier acc w))
     = events w"
  by (induction us arbitrary: acc w)
     (simp_all add: is_valid_utterance_no_english split: sum.splits prod.splits)

lemma for_utterances_no_english_error:
  "fst (for_utterances us False use_langid english_words langid_identifier acc w) = Inl e
   \<Longrightarrow> e = AttributeError ''NoneType'' ''lower'' \<or> e = AttributeError ''int'' ''lower''"
proof (induction us arbitrary: acc w)
  case Nil
  then show ?case by simp
next
  case (Cons u rest)
  from Cons.prems show ?case
    by (auto simp: is_valid_utterance_no_english split: sum.splits prod.splits if_splits
        dest: clean_utterance_no_english_error Cons.IH)
qed

text \<open>
  Claim C10. When remove_english is off, \<open>clean_json_data\<close> does the same with use_langid
  on as with use_langid off, calls no external library (neither the word corpus nor the
  language identifier is built or used), and never fails on the missing identifier.
\<close>

theorem clean_json_data_langid_needs_remove_english:
  "clean_json_data env json_data False use_langid w = clean_json_data env json_data False False w
   \<and> events (snd (clean_json_data env json_data False use_langid w)) = events w
   \<and> fst (clean_json_data env json_data False use_langid w)
        \<noteq> Inl (AttributeError ''NoneType'' ''classify'')"
proof (intro conjI)
  show "clean_json_data env json_data False use_langid w = clean_json_data env json_data False False w"
    by (simp add: clean_json_data_def for_utterances_no_english [of _ use_langid])
  show "events (snd (clean_json_data env json_data False use_langid w)) = events w"
    by (simp add: clean_json_data_def for_utterances_no_english_events)
  show "fst (clean_json_data env json_data False use_langid w)
        \<noteq> Inl (AttributeError ''NoneType'' ''classify'')"
  proof
    assume "fst (clean_json_data env json_data False use_langid w)
        = Inl (AttributeError ''NoneType'' ''classify'')"
    then have "fst (for_utterances json_data False use_langid {} None [] w)
        = Inl (AttributeError ''NoneType'' ''classify'')"
      by (simp add: clean_json_data_def)
    from for_utterances_no_english_error [OF this] show False by simp
  qed
qed

subsection \<open>The batch run returns\<close>

lemma split_from_length: "length (split_from s cur) \<le> length s + 1"
proof (induction s arbitrary: cur)
  case Nil
  show ?case by simp
next
  case (Cons c cs)
  have a: "length (split_from cs []) \<le> length cs + 1" by (rule Cons.IH)
  have b: "length (split_from cs (cur @ [c])) \<le> length cs + 1" by (rule Cons.IH)
  show ?case using a b by simp
qed

lemma split_length: "length (split s) \<le> length s + 1"
  unfolding split_def by (rule split_from_length)

lemma for_words_step:
  "for_words (w # rest) remove_english english_words punctuation special_cases (clean_words, n)
     = Inr ([], 0)
   \<or> for_words (w # rest) remove_english english_words punctuation special_cases (clean_words, n)
     = Inl TypeError \<and> english_words = None
   \<or> (\<exists>cw k. (k = n \<or> k = n + 1)
        \<and> for_words (w # rest) remove_english english_words punctuation special_cases
             (clean_words, n)
           = for_words rest remove_english english_words punctuation special_cases (cw, k))"
  by (auto simp: Let_def split: option.splits)

lemma for_words_count:
  "for_words ws remove_english english_words punctuation special_cases (clean_words, n)
     = Inr (clean_words', n')
   \<Longrightarrow> 0 \<le> n \<Longrightarrow> 0 \<le> n' \<and> n' \<le> n + int (length ws)"
proof (induction ws arbitrary: clean_words n)
  case Nil
  then show ?case by simp
next
  case (Cons w rest)
  from for_words_step [of w rest remove_english english_words punctuation special_cases
      clean_words n]
  consider "for_words (w # rest) remove_english english_words punctuation special_cases
              (clean_words, n) = Inr ([], 0)"
    | "for_words (w # rest) remove_english english_words punctuation special_cases
              (clean_words, n) = Inl TypeError"
    | cw k where "k = n \<or> k = n + 1"
        "for_words (w # rest) remove_english english_words punctuation special_cases
             (clean_words, n)
           = for_words rest remove_english english_words punctuation special_cases (cw, k)"
    by blast
  then show ?case
  proof cases
    case 1
    with Cons.prems show ?thesis by simp
  next
    case 2
    with Cons.prems show ?thesis by simp
  next
    case 3
    with Cons.prems have r: "for_words rest remove_english english_words punctuation
        special_cases (cw, k) = Inr (clean_words', n')" by simp
    from 3(1) Cons.prems(2) have "0 \<le> k" by auto
    from Cons.IH [OF r this] 3(1) show ?thesis by auto
  qed
qed

lemma for_words_total:
  "\<exists>r. for_words ws remove_english (Some corpus) punctuation special_cases (clean_words, n)
         = Inr r"
proof (induction ws arbitrary: clean_words n)
  case Nil
  show ?case by simp
next
  case (Cons w rest)
  from for_words_step [of w rest remove_english "Some corpus" punctuation special_cases
      clean_words n]
  consider "for_words (w # rest) remove_english (Some corpus) punctuation special_cases
              (clean_words, n) = Inr ([], 0)"
    | cw k where
        "for_words (w # rest) remove_english (Some corpus) punctuation special_cases
             (clean_words, n)
           = for_words rest remove_english (Some corpus) punctuation special_cases (cw, k)"
    by blast
  then show ?case
  proof cases
    case 1
    then show ?thesis by blast
  next
    case 2
    with Cons.IH [of cw k] show ?thesis by (simp only:)
  qed
qed

lemma clean_utterance_total:
  assumes "utterance ''transcript'' = Some (Str transcript)"
  shows "\<exists>clean_words n.
           clean_utterance utterance remove_english (Some corpus) punctuation special_cases
             = Inr (clean_words, n)
         \<and> 0 \<le> n \<and> n \<le> int (length transcript) + 1"
proof -
  from for_words_total [of "split (lower transcript)" remove_english corpus punctuation
      special_cases "[]" 0]
  obtain cw n where r: "for_words (split (lower transcript)) remove_english (Some corpus)
      punctuation special_cases ([], 0) = Inr (cw, n)" by (metis surj_pair)
  from for_words_count [OF r] have "0 \<le> n" "n \<le> int (length (split (lower transcript)))"
    by simp_all
  moreover have "length (split (lower transcript)) \<le> length transcript + 1"
    using split_length [of "lower transcript"] by (simp add: lower_def)
  ultimately have "0 \<le> n \<and> n \<le> int (length transcript) + 1" by simp
  with r assms show ?thesis by (simp add: clean_utterance_def)
qed

lemma is_valid_utterance_total:
  assumes "0 \<le> n" and "n < 2 ^ 1023" and "remove_english \<and> use_langid \<longrightarrow> langid_identifier \<noteq> None"
  shows "\<exists>valid calls. is_valid_utterance clean_words n remove_english use_langid langid_identifier
           = (Inr valid, calls)"
proof (cases "remove_english \<and> 0 < length clean_words")
  case True
  then have "0 < int (length clean_words)" by simp
  from true_div_no_overflow [OF assms(1,2) this] obtain q where
    "true_div n (int (length clean_words)) = Inr q" by blast
  with True assms(3) show ?thesis
    by (auto simp: is_valid_utterance_def Let_def split: prod.splits bool.splits)
next
  case False
  with assms(3) show ?thesis
    by (auto simp: is_valid_utterance_def Let_def split: prod.splits bool.splits)
qed

lemma for_utterances_total:
  assumes "remove_english \<and> use_langid \<longrightarrow> langid_identifier \<noteq> None"
  shows "distinct us
     \<Longrightarrow> \<forall>r\<in>set us. \<exists>t. heap w r ''transcript'' = Some (Str t) \<and> length t < 2 ^ 63
     \<Longrightarrow> \<exists>out w'. for_utterances us remove_english use_langid english_words
                    langid_identifier acc w = (Inr out, w')"
proof (induction us arbitrary: acc w)
  case Nil
  show ?case by simp
next
  case (Cons u rest)
  from Cons.prems obtain t where t: "heap w u ''transcript'' = Some (Str t)"
    and l: "length t < 2 ^ 63" by auto
  from clean_utterance_total [where utterance = "heap w u" and transcript = t
      and remove_english = remove_english and corpus = english_words
      and punctuation = "Some punctuation_to_remove" and special_cases = "Some [''<silence>'']",
      OF t]
  obtain cw n where cu: "clean_utterance (heap w u) remove_english (Some english_words)
      (Some punctuation_to_remove) (Some [''<silence>'']) = Inr (cw, n)"
    and n: "0 \<le> n" "n \<le> int (length t) + 1" by blast
  from l have "int (length t) + 1 \<le> 2 ^ 63" by simp
  also have "(2 :: int) ^ 63 < 2 ^ 1023" by simp
  finally have "n < 2 ^ 1023" using n(2) by simp
  from is_valid_utterance_total [OF n(1) this assms] obtain valid calls where
    v: "is_valid_utterance cw n remove_english use_langid langid_identifier = (Inr valid, calls)"
    by blast
  from Cons.prems have d: "distinct rest" and ur: "u \<notin> set rest" by auto
  have rec: "\<exists>out w'. for_utterances rest remove_english use_langid english_words
                    langid_identifier acc1 w1 = (Inr out, w')"
    if "\<forall>r. r \<noteq> u \<longrightarrow> heap w1 r = heap w r" for acc1 w1
  proof (rule Cons.IH [OF d])
    show "\<forall>r\<in>set rest. \<exists>t. heap w1 r ''transcript'' = Some (Str t) \<and> length t < 2 ^ 63"
      using Cons.prems(2) ur that by auto
  qed
  show ?case
  proof (cases valid)
    case True
    then show ?thesis using cu v by (simp add: rec)
  next
    case False
    then show ?thesis using cu v by (simp add: rec)
  qed
qed

lemma clean_json_data_total:
  assumes "distinct json_data"
    and "\<forall>r\<in>set json_data. \<exists>t. heap w r ''transcript'' = Some (Str t) \<and> length t < 2 ^ 63"
  shows "\<exists>cleaned_data w'. clean_json_data env json_data remove_english use_langid w
           = (Inr cleaned_data, w')"
proof -
  have run: "\<exists>out w'. for_utterances json_data remove_english use_langid english_words
          langid_identifier [] w0 = (Inr out, w')"
    if "remove_english \<and> use_langid \<longrightarrow> langid_identifier \<noteq> None" and "heap w0 = heap w"
    for english_words langid_identifier w0
    using for_utterances_total [OF that(1) assms(1), of w0] assms(2) that(2) by simp
  show ?thesis
  proof (cases remove_english; cases use_langid)
    assume f: "remove_english" "use_langid"
    have "\<exists>out w'. for_utterances json_data remove_english use_langid (nltk_words env)
          (Some (langid_model env)) []
          (w\<lparr>events := events w @ [Get_english_words, From_modelstring]\<rparr>) = (Inr out, w')"
      by (rule run) simp_all
    with f show ?thesis by (simp add: clean_json_data_def)
  next
    assume f: "remove_english" "\<not> use_langid"
    have "\<exists>out w'. for_utterances json_data remove_english use_langid (nltk_words env)
          None [] (w\<lparr>events := events w @ [Get_english_words]\<rparr>) = (Inr out, w')"
      by (rule run) (simp_all add: f)
    with f show ?thesis by (simp add: clean_json_data_def)
  next
    assume f: "\<not> remove_english" "use_langid"
    have "\<exists>out w'. for_utterances json_data remove_english use_langid {}
          None [] w = (Inr out, w')"
      by (rule run) (simp_all add: f)
    with f show ?thesis by (simp add: clean_json_data_def)
  next
    assume f: "\<not> remove_english" "\<not> use_langid"
    have "\<exists>out w'. for_utterances json_data remove_english use_langid {}
          None [] w = (Inr out, w')"
      by (rule run) (simp_all add: f)
    with f show ?thesis by (simp add: clean_json_data_def)
  qed
qed

text \<open>
  Claim C7. For a batch of distinct records whose transcripts are strings (of fewer than
  \<open>2 ^ 63\<close> characters, the limit of a Python string) \<open>clean_json_data\<close> returns, and the
  records it returns are a subsequence of the input batch: the surviving records in their
  input order, none of them new, and none twice when the batch names no record twice.
\<close>

theorem clean_json_data_subsequence:
  "(distinct json_data
      \<and> (\<forall>r\<in>set json_data. \<exists>t. heap w r ''transcript'' = Some (Str t) \<and> length t < 2 ^ 63)
     \<longrightarrow> (\<exists>cleaned_data w'. clean_json_data env json_data remove_english use_langid w
                             = (Inr cleaned_data, w')))
   \<and> (\<forall>cleaned_data w'.
         clean_json_data env json_data remove_english use_langid w = (Inr cleaned_data, w')
       \<longrightarrow> subseq cleaned_data json_data
           \<and> set cleaned_data \<subseteq> set json_data
           \<and> (distinct json_data \<longrightarrow> distinct cleaned_data))"
  using clean_json_data_total [of json_data w env remove_english use_langid]
    clean_json_data_kept [of env json_data remove_english use_langid w]
  by blast

theorem clean_json_data_subsequence_witness:
  "distinct [0, 1, 2 :: nat]
   \<and> heap example_world 0 ''transcript'' = Some (Str ''Hello, World!'')
   \<and> length ''Hello, World!'' < 2 ^ 63
   \<and> heap example_world 1 ''transcript'' = Some (Str ''@eng@ hi'')
   \<and> length ''@eng@ hi'' < 2 ^ 63
   \<and> heap example_world 2 ''transcript'' = Some (Str ''Bonjour 12 <silence>'')
   \<and> length ''Bonjour 12 <silence>'' < 2 ^ 63
   \<and> (\<exists>w'. clean_json_data example_env [0, 1, 2] False False example_world = (Inr [0, 2], w'))
   \<and> subseq [0, 2] [0, 1, 2 :: nat] \<and> distinct [0, 2 :: nat]"
proof -
  have d: "distinct [0, 1, 2 :: nat]" by simp
  have h: "heap example_world 0 ''transcript'' = Some (Str ''Hello, World!'')
      \<and> length ''Hello, World!'' < 2 ^ 63"
    "heap example_world 1 ''transcript'' = Some (Str ''@eng@ hi'')
      \<and> length ''@eng@ hi'' < 2 ^ 63"
    "heap example_world 2 ''transcript'' = Some (Str ''Bonjour 12 <silence>'')
      \<and> length ''Bonjour 12 <silence>'' < 2 ^ 63"
    by (simp_all add: example_world_def)
  have a: "\<forall>r\<in>set [0, 1, 2 :: nat]. \<exists>t. heap example_world r ''transcript'' = Some (Str t)
      \<and> length t < 2 ^ 63"
    using h by simp
  note t = clean_json_data_subsequence [of "[0, 1, 2]" example_world example_env False False]
  from t [THEN conjunct1, rule_format, OF conjI [OF d a]] obtain cleaned_data w' where
    r: "clean_json_data example_env [0, 1, 2] False False example_world = (Inr cleaned_data, w')"
    by blast
  have "fst (clean_json_data example_env [0, 1, 2] False False example_world) = Inr [0, 2]"
    by code_simp
  with r have c: "cleaned_data = [0, 2]" by simp
  from t [THEN conjunct2, rule_format, OF r] d
  have s: "subseq cleaned_data [0, 1, 2]" "distinct cleaned_data" by blast+
  from r c have e: "\<exists>w'. clean_json_data example_env [0, 1, 2] False False example_world
      = (Inr [0, 2], w')" by blast
  from d h e s c show ?thesis by simp
qed

subsection \<open>The theorems on the example batch\<close>

theorem clean_json_data_frame_witness:
  "clean_json_data example_env [0, 1, 2] False False example_world
     = (Inr [0, 2], snd (clean_json_data example_env [0, 1, 2] False False example_world))
   \<and> ''speaker_id'' \<noteq> ''transcript''
   \<and> heap (snd (clean_json_data example_env [0, 1, 2] False False example_world)) 0 ''speaker_id''
       = Some (Str ''ann'')
   \<and> 1 \<notin> set [0, 2 :: nat]
   \<and> heap (snd (clean_json_data example_env [0, 1, 2] False False example_world)) 1
       = heap example_world 1
   \<and> distinct [0, 1, 2 :: nat] \<and> 0 \<in> set [0, 2 :: nat]
   \<and> heap (snd (clean_json_data example_env [0, 1, 2] False False example_world)) 0 ''transcript''
       = Some (Str ''hello world'')"
proof -
  let ?w' = "snd (clean_json_data example_env [0, 1, 2] False False example_world)"
  have "fst (clean_json_data example_env [0, 1, 2] False False example_world) = Inr [0, 2]"
    by code_simp
  then have r: "clean_json_data example_env [0, 1, 2] False False example_world = (Inr [0, 2], ?w')"
    by (simp add: prod_eq_iff)
  note t = clean_json_data_frame [OF r]
  have k: "''speaker_id'' \<noteq> ''transcript''" by simp
  have a: "heap ?w' 0 ''speaker_id'' = Some (Str ''ann'')"
    using t [THEN conjunct1, rule_format, OF k, of 0] by (simp add: example_world_def)
  have n: "1 \<notin> set [0, 2 :: nat]" by simp
  have b: "heap ?w' 1 = heap example_world 1"
    by (rule t [THEN conjunct2, THEN conjunct1, rule_format, OF n])
  have d: "distinct [0, 1, 2 :: nat]" by simp
  have m: "0 \<in> set [0, 2 :: nat]" by simp
  have cu: "clean_utterance (heap example_world 0) False (Some (if False then nltk_words example_env else {}))
                  (Some punctuation_to_remove) (Some [''<silence>'']) = Inr ([''hello'', ''world''], 0)"
    by code_simp
  from t [THEN conjunct2, THEN conjunct2, rule_format, OF d m] obtain clean_words k where
    "clean_utterance (heap example_world 0) False (Some (if False then nltk_words example_env else {}))
                  (Some punctuation_to_remove) (Some [''<silence>'']) = Inr (clean_words, k)"
    "heap ?w' 0 ''transcript'' = Some (Str (strip (join '' '' clean_words)))" by blast
  with cu have "heap ?w' 0 ''transcript'' = Some (Str (strip (join '' '' [''hello'', ''world''])))"
    by simp
  also have "strip (join '' '' [''hello'', ''world'']) = ''hello world''"
    by (simp add: strip_def isspace_def code_point_def)
  finally have c: "heap ?w' 0 ''transcript'' = Some (Str ''hello world'')" .
  from r k a n b d m c show ?thesis
    by (intro conjI) (erule conjunct1 conjunct2 | assumption)+
qed

theorem clean_json_data_langid_needs_remove_english_witness:
  "clean_json_data example_env [0, 1, 2] False True example_world
     = clean_json_data example_env [0, 1, 2] False False example_world
   \<and> fst (clean_json_data example_env [0, 1, 2] False True example_world) = Inr [0, 2]
   \<and> events (snd (clean_json_data example_env [0, 1, 2] False True example_world)) = []"
proof -
  have f: "fst (clean_json_data example_env [0, 1, 2] False False example_world) = Inr [0, 2]"
    by code_simp
  note t = clean_json_data_langid_needs_remove_english [of example_env "[0, 1, 2]" True example_world]
  have e: "events example_world = []" by (simp add: example_world_def)
  from t [THEN conjunct1] f
  have g: "fst (clean_json_data example_env [0, 1, 2] False True example_world) = Inr [0, 2]"
    by (simp only:)
  from t [THEN conjunct2, THEN conjunct1] e
  have h: "events (snd (clean_json_data example_env [0, 1, 2] False True example_world)) = []"
    by (simp only:)
  from t [THEN conjunct1] g h show ?thesis
    by (intro conjI) (erule conjunct1 conjunct2 | assumption)+
qed

end
